theory Spec2Isabelle
  imports Complex_Main
begin

section \<open>Circular curve calculator: the computation of curve_webapp.py\<close>

text \<open>
  The script reads four widget values (intersection angle \<open>I_deg\<close>, degree of curve
  \<open>Da_deg\<close>, the P.I. station text and the stake interval), and computes the curve
  elements, the stake stations, the deflection and chord table and the plan coordinates.

  Numbers: a Python \<open>float\<close> is modelled by a \<open>real\<close>. \<open>float(text)\<close> rounds the
  decimal it reads to binary64 and overflows to an infinity, as the builtin does. The
  arithmetic of the script is the exact one: the rounding and the finite range of its
  binary64 operations are outside the model. Python \<open>int\<close> is \<open>int\<close>.

  Text: a \<open>string\<close> is a Python \<open>str\<close> whose characters have code points below 256, a
  \<open>char\<close> being its code point; a text with another character is outside the input type
  of the model.
\<close>

subsection \<open>Python values and exceptions\<close>

datatype error = ValueError | OverflowError | ZeroDivisionError

text \<open>The result of \<open>float(text)\<close>: a finite number, an infinity (the flag is the sign,
  \<open>True\<close> for negative) or a NaN.\<close>

datatype pyfloat = Finite real | Infinity bool | NaN

subsection \<open>The builtin \<open>float(str)\<close>\<close>

text \<open>
  The grammar of the Python language reference, on ASCII text:
  \<^verbatim>\<open>
  floatvalue  ::= [sign] (floatnumber | infinity | nan)      (surrounding whitespace stripped)
  floatnumber ::= number [exponent]
  number      ::= [digitpart] "." digitpart | digitpart ["."]
  digitpart   ::= digit (["_"] digit)*
  exponent    ::= ("e" | "E") [sign] digitpart
  infinity    ::= "Infinity" | "inf"      nan ::= "nan"     (any letter case)
  \<close>
\<close>

text \<open>\<open>float\<close> turns the white space beyond ASCII, here U+0085 and U+00A0, into blanks,
  and then strips the ASCII white space: the characters 9 to 13 and the blank.\<close>

definition is_space :: "char \<Rightarrow> bool" where
  "is_space c = (let n = (of_char c :: nat) in (9 \<le> n \<and> n \<le> 13) \<or> n = 32 \<or> n = 133 \<or> n = 160)"

definition strip :: "string \<Rightarrow> string" where
  "strip s = rev (dropWhile is_space (rev (dropWhile is_space s)))"

definition is_digit :: "char \<Rightarrow> bool" where
  "is_digit c = (let n = (of_char c :: nat) in 48 \<le> n \<and> n \<le> 57)"

definition digit_val :: "char \<Rightarrow> nat" where
  "digit_val c = of_char c - 48"

definition ascii_lower :: "char \<Rightarrow> char" where
  "ascii_lower c = (let n = (of_char c :: nat) in if 65 \<le> n \<and> n \<le> 90 then char_of (n + 32) else c)"

fun digitpart :: "string \<Rightarrow> bool" where
  "digitpart [] = False"
| "digitpart [c] = is_digit c"
| "digitpart (c # d # cs) =
     (is_digit c \<and> (if d = CHR ''_'' then digitpart cs else digitpart (d # cs)))"

definition digits_val :: "string \<Rightarrow> nat" where
  "digits_val s = foldl (\<lambda>n c. 10 * n + digit_val c) 0 (filter is_digit s)"

definition is_sign :: "char \<Rightarrow> bool" where
  "is_sign c = (c = CHR ''+'' \<or> c = CHR ''-'')"

definition is_exp_mark :: "char \<Rightarrow> bool" where
  "is_exp_mark c = (c = CHR ''e'' \<or> c = CHR ''E'')"

text \<open>The mantissa \<open>number\<close>: its value, or \<open>None\<close> when the text is not one.\<close>

definition parse_number :: "string \<Rightarrow> real option" where
  "parse_number m =
     (let ip = takeWhile (\<lambda>c. c \<noteq> CHR ''.'') m;
          rest = dropWhile (\<lambda>c. c \<noteq> CHR ''.'') m
      in if rest = [] then
           (if digitpart ip then Some (real (digits_val ip)) else None)
         else
           (let fp = tl rest
            in if (ip = [] \<or> digitpart ip) \<and> (fp = [] \<or> digitpart fp) \<and> \<not> (ip = [] \<and> fp = [])
               then Some (real (digits_val ip)
                          + real (digits_val fp) / 10 ^ length (filter is_digit fp))
               else None))"

text \<open>The exponent after its \<open>e\<close>: the power of ten to multiply with.\<close>

definition parse_exponent :: "string \<Rightarrow> real option" where
  "parse_exponent e =
     (case e of
        [] \<Rightarrow> None
      | c # cs \<Rightarrow>
          (if is_sign c then
             (if digitpart cs
              then Some (if c = CHR ''-'' then 1 / 10 ^ digits_val cs else 10 ^ digits_val cs)
              else None)
           else if digitpart e then Some (10 ^ digits_val e) else None))"

definition parse_floatnumber :: "string \<Rightarrow> real option" where
  "parse_floatnumber t =
     (let m = takeWhile (\<lambda>c. \<not> is_exp_mark c) t;
          rest = dropWhile (\<lambda>c. \<not> is_exp_mark c) t
      in if rest = [] then parse_number m
         else (case (parse_number m, parse_exponent (tl rest)) of
                 (Some v, Some p) \<Rightarrow> Some (v * p)
               | _ \<Rightarrow> None))"

text \<open>Rounding to the nearest integer, a tie going to the even neighbour: the rule of
  \<open>round\<close> and of the \<open>f\<close> format on the exact value.\<close>

definition round_half_even :: "real \<Rightarrow> int" where
  "round_half_even y =
     (let f = \<lfloor>y\<rfloor>; d = y - of_int f
      in if d < 1/2 then f else if 1/2 < d then f + 1 else if even f then f else f + 1)"

text \<open>
  Rounding to binary64, to the nearest number and to the even one in a tie. \<open>bits n\<close> is
  the length of \<open>n\<close> in binary and \<open>exponent2 x\<close> the exponent \<open>e\<close> with
  \<open>2^e \<le> x < 2^(e+1)\<close>, for \<open>x > 0\<close>. The numbers of binary64 at \<open>x\<close> are the multiples of
  \<open>quantum x\<close>: 53 bits from the leading one, and \<open>2^-1074\<close> below \<open>2^-1022\<close>. A decimal of
  \<open>2^1024 - 2^970\<close> or more is read as an infinity.
\<close>

fun bits :: "nat \<Rightarrow> nat" where
  "bits n = (if n = 0 then 0 else Suc (bits (n div 2)))"

declare bits.simps [simp del]

definition exponent2 :: "real \<Rightarrow> int" where
  "exponent2 x = (if 1 \<le> x then int (bits (nat \<lfloor>x\<rfloor>)) - 1
                  else - int (bits (nat (\<lceil>1 / x\<rceil> - 1))))"

definition quantum :: "real \<Rightarrow> real" where
  "quantum x = (let e = max (exponent2 \<bar>x\<bar>) (- 1022) - 52
                in if 0 \<le> e then 2 ^ nat e else 1 / 2 ^ nat (- e))"

definition binary64 :: "real \<Rightarrow> real" where
  "binary64 x = (if x = 0 then 0 else of_int (round_half_even (x / quantum x)) * quantum x)"

definition to_float :: "bool \<Rightarrow> real \<Rightarrow> pyfloat" where
  "to_float neg v =
     (if 2 ^ 1024 - 2 ^ 970 \<le> v then Infinity neg
      else Finite (if neg then - binary64 v else binary64 v))"

definition py_float :: "string \<Rightarrow> error + pyfloat" where
  "py_float text =
     (let t = strip text;
          neg = (t \<noteq> [] \<and> hd t = CHR ''-'');
          body = (if t \<noteq> [] \<and> is_sign (hd t) then tl t else t);
          low = map ascii_lower body
      in if low = ''inf'' \<or> low = ''infinity'' then Inr (Infinity neg)
         else if low = ''nan'' then Inr NaN
         else (case parse_floatnumber body of
                 None \<Rightarrow> Inl ValueError
               | Some v \<Rightarrow> Inr (to_float neg v)))"

subsection \<open>Station text: \<open>station_to_ft\<close> and \<open>ft_to_station\<close>\<close>

text \<open>\<open>sta.replace('+', '')\<close> deletes every plus sign; \<open>float\<close> raises \<open>ValueError\<close>
  on what it cannot read.\<close>

definition station_to_ft :: "string \<Rightarrow> error + pyfloat" where
  "station_to_ft sta = (let s = filter (\<lambda>c. c \<noteq> CHR ''+'') sta in py_float s)"

text \<open>\<open>str(i)\<close> of an integer.\<close>

definition digit_char :: "nat \<Rightarrow> char" where
  "digit_char d = ''0123456789'' ! d"

fun show_nat :: "nat \<Rightarrow> string" where
  "show_nat n = (if n < 10 then [digit_char n] else show_nat (n div 10) @ [digit_char (n mod 10)])"

declare show_nat.simps [simp del]

definition show_int :: "int \<Rightarrow> string" where
  "show_int i = (if i < 0 then CHR ''-'' # show_nat (nat (- i)) else show_nat (nat i))"

text \<open>The format \<open>05.2f\<close>: two decimals, and zeros between the sign and the digits up to
  a total width of five.\<close>

definition fmt_2f_digits :: "real \<Rightarrow> string" where
  "fmt_2f_digits x =
     (let n = nat (round_half_even (\<bar>x\<bar> * 100))
      in show_nat (n div 100) @ ''.'' @ [digit_char (n mod 100 div 10), digit_char (n mod 10)])"

definition fmt_05_2f :: "real \<Rightarrow> string" where
  "fmt_05_2f x =
     (let sign = (if x < 0 then ''-'' else '''');
          body = fmt_2f_digits x
      in sign @ replicate (5 - length sign - length body) (CHR ''0'') @ body)"

definition ft_to_station :: "real \<Rightarrow> string" where
  "ft_to_station x =
     (let i = \<lfloor>x / 100\<rfloor>;
          r = x - of_int i * 100
      in show_int i @ ''+'' @ fmt_05_2f r)"

subsection \<open>Curve elements\<close>

definition radians :: "real \<Rightarrow> real" where
  "radians x = x * pi / 180"

text \<open>
  \<open>math.tan\<close>. Off the poles it is the tangent. A binary64 argument is never a pole: where
  the exact argument is the pole \<open>pi/2\<close> (\<open>radians 90\<close>), the argument of the code is the
  binary64 number next to it and \<open>math.tan\<close> returns \<open>16331239353195370\<close>, and the negative
  of it at \<open>-pi/2\<close>. These are the only poles that angles between \<open>-180\<close> and \<open>180\<close> degrees
  reach; the model gives every pole this value.
\<close>

definition math_tan :: "real \<Rightarrow> real" where
  "math_tan x =
     (if cos x = 0 then (if 0 < sin x then 16331239353195370 else - 16331239353195370)
      else tan x)"

record elements =
  R :: real
  T :: real
  L :: real
  PC_station :: real
  PT_station :: real

definition curve_elements :: "real \<Rightarrow> real \<Rightarrow> real \<Rightarrow> elements" where
  "curve_elements I_deg Da_deg PI_ft =
     (let r = 18000 / (pi * Da_deg);
          t = r * math_tan (radians (I_deg / 2));
          l = 100 * I_deg / Da_deg;
          pc = PI_ft - t;
          pt = pc + l
      in \<lparr>R = r, T = t, L = l, PC_station = pc, PT_station = pt\<rparr>)"

subsection \<open>Stake stations\<close>

text \<open>The \<open>while\<close> loop; \<open>s\<close> is an integer (\<open>math.ceil\<close> returns one). \<open>None\<close> is a loop
  that never ends.\<close>

partial_function (option) stake_loop :: "int \<Rightarrow> real \<Rightarrow> int \<Rightarrow> real list \<Rightarrow> real list option" where
  "stake_loop s pt stake_step stations =
     (if real_of_int s < pt - 1 / 1000000
      then stake_loop (s + stake_step) pt stake_step (stations @ [real_of_int s])
      else Some stations)"

definition first_full :: "real \<Rightarrow> int \<Rightarrow> int" where
  "first_full pc stake_step = \<lceil>(pc + of_int stake_step) / of_int stake_step\<rceil> * stake_step"

definition stake_stations :: "real \<Rightarrow> real \<Rightarrow> int \<Rightarrow> (error + real list) option" where
  "stake_stations pc pt stake_step =
     (if stake_step = 0 then Some (Inl ZeroDivisionError)
      else (case stake_loop (first_full pc stake_step) pt stake_step [pc] of
              None \<Rightarrow> None
            | Some stations \<Rightarrow> Some (Inr (stations @ [pt]))))"

subsection \<open>Deflection angles and chords\<close>

definition deflections :: "real \<Rightarrow> real \<Rightarrow> real list \<Rightarrow> real list" where
  "deflections Da_deg pc stations = map (\<lambda>stn. Da_deg * (stn - pc) / 200) stations"

definition py_round2 :: "real \<Rightarrow> real" where
  "py_round2 x = of_int (round_half_even (x * 100)) / 100"

definition chord_step :: "real \<Rightarrow> real list \<Rightarrow> nat \<Rightarrow> real list \<times> real list \<Rightarrow> real list \<times> real list" where
  "chord_step r deflection_deg i cts =
     (let d_inc = deflection_deg ! i - deflection_deg ! (i - 1);
          chord_inc = 2 * r * sin (radians d_inc);
          chord_cum = 2 * r * sin (radians (deflection_deg ! i))
      in (fst cts @ [py_round2 chord_inc], snd cts @ [py_round2 chord_cum]))"

text \<open>\<open>for i in range(1, len(stations))\<close>, from \<open>tape_ct = [0.00]\<close> and \<open>edm_ct = [0.00]\<close>;
  the two lists have the length of \<open>stations\<close>, so every index read is in range.\<close>

definition chord_table :: "real \<Rightarrow> real list \<Rightarrow> real list \<times> real list" where
  "chord_table r deflection_deg =
     fold (chord_step r deflection_deg) [1 ..< length deflection_deg] ([0], [0])"

text \<open>The two chords of row \<open>i\<close> before they are rounded.\<close>

definition chord_inc :: "real \<Rightarrow> real list \<Rightarrow> nat \<Rightarrow> real" where
  "chord_inc r ds i = 2 * r * sin (radians (ds ! i - ds ! (i - 1)))"

definition chord_cum :: "real \<Rightarrow> real list \<Rightarrow> nat \<Rightarrow> real" where
  "chord_cum r ds i = 2 * r * sin (radians (ds ! i))"

subsection \<open>The table columns\<close>

definition point_labels :: "nat \<Rightarrow> string list" where
  "point_labels n = [''P.C.''] @ map show_nat [1 ..< n - 1] @ [''P.T.'']"

text \<open>\<open>d:02d\<close>: an integer, zero-padded to two characters.\<close>

definition fmt_02d :: "int \<Rightarrow> string" where
  "fmt_02d i =
     (let sign = (if i < 0 then ''-'' else '''');
          body = show_nat (nat \<bar>i\<bar>)
      in sign @ replicate (2 - length sign - length body) (CHR ''0'') @ body)"

text \<open>The degree sign and the prime and double prime, as their UTF-8 bytes.\<close>

definition degree_sign :: string where
  "degree_sign = [char_of (194 :: nat), char_of (176 :: nat)]"

definition prime_sign :: string where
  "prime_sign = [char_of (226 :: nat), char_of (128 :: nat), char_of (178 :: nat)]"

definition double_prime_sign :: string where
  "double_prime_sign = [char_of (226 :: nat), char_of (128 :: nat), char_of (179 :: nat)]"

definition deg_to_dms_nearest_sec :: "real \<Rightarrow> string" where
  "deg_to_dms_nearest_sec deg =
     (let tot = round_half_even (deg * 3600);
          d = tot div 3600; rem = tot mod 3600;
          m = rem div 60; s = rem mod 60;
          m1 = (if s = 60 then m + 1 else m);
          s1 = (if s = 60 then 0 else s);
          d2 = (if m1 \<ge> 60 then d + 1 else d);
          m2 = (if m1 \<ge> 60 then m1 - 60 else m1)
      in fmt_02d d2 @ degree_sign @ fmt_02d m2 @ prime_sign @ fmt_02d s1 @ double_prime_sign)"

subsection \<open>Plan coordinates\<close>

definition x_coord :: "real \<Rightarrow> real \<Rightarrow> real" where
  "x_coord r d = r * sin (radians (2 * d))"

definition y_coord :: "real \<Rightarrow> real \<Rightarrow> real" where
  "y_coord r d = - r * (1 - cos (radians (2 * d)))"

text \<open>The P.I.: \<open>m2 = math.tan(theta_PT_tan)\<close>, \<open>x_PI = PT_x - PT_y/m2\<close>; a float division by
  \<open>0.0\<close> raises \<open>ZeroDivisionError\<close>.\<close>

definition PI_coords :: "real \<Rightarrow> real \<Rightarrow> real \<Rightarrow> error + real \<times> real" where
  "PI_coords I_deg PT_x PT_y =
     (let theta_PT_tan = radians (180 - I_deg);
          m2 = math_tan theta_PT_tan
      in if m2 = 0 then Inl ZeroDivisionError
         else Inr (PT_x - PT_y / m2, 0))"

subsection \<open>The script\<close>

record display =
  curve :: elements
  stations :: "real list"
  points :: "string list"
  station_col :: "string list"
  defl_col :: "string list"
  deflection_deg :: "real list"
  tape_ct :: "real list"
  edm_ct :: "real list"
  x_points :: "real list"
  y_points :: "real list"
  PI_point :: "real \<times> real"

datatype outcome = Warning | Rendered display

text \<open>
  The result of a run: \<open>None\<close> when the stake loop never ends, \<open>Some (Inl e)\<close> when the
  exception \<open>e\<close> leaves the script, \<open>Some (Inr Warning)\<close> for the \<open>else\<close> branch
  (\<open>st.warning\<close>) and \<open>Some (Inr (Rendered d))\<close> when everything of \<open>d\<close> has been computed
  and is handed to the widgets. A P.I. station that is an infinity or a NaN makes
  \<open>math.ceil\<close> raise (\<open>OverflowError\<close>, \<open>ValueError\<close>), unless the division by a
  stake interval of \<open>0\<close> has raised before it.
\<close>

definition render :: "real \<Rightarrow> real \<Rightarrow> elements \<Rightarrow> real list \<Rightarrow> error + outcome" where
  "render I_deg Da_deg el sts =
     (let defl = deflections Da_deg (PC_station el) sts;
          cts = chord_table (R el) defl;
          xs = map (x_coord (R el)) defl;
          ys = map (y_coord (R el)) defl
      in case PI_coords I_deg (last xs) (last ys) of
           Inl e \<Rightarrow> Inl e
         | Inr p \<Rightarrow>
             Inr (Rendered \<lparr>curve = el, stations = sts,
                    points = point_labels (length sts),
                    station_col = map ft_to_station sts,
                    defl_col = map deg_to_dms_nearest_sec defl,
                    deflection_deg = defl,
                    tape_ct = fst cts, edm_ct = snd cts,
                    x_points = xs, y_points = ys, PI_point = p\<rparr>))"

definition pipeline :: "real \<Rightarrow> real \<Rightarrow> string \<Rightarrow> int \<Rightarrow> (error + outcome) option" where
  "pipeline I_deg Da_deg PI_station_str stake_step =
     (if Da_deg > 0 \<and> I_deg > 0 then
        (case station_to_ft PI_station_str of
           Inl e \<Rightarrow> Some (Inl e)
         | Inr (Infinity b) \<Rightarrow>
             Some (Inl (if stake_step = 0 then ZeroDivisionError else OverflowError))
         | Inr NaN \<Rightarrow>
             Some (Inl (if stake_step = 0 then ZeroDivisionError else ValueError))
         | Inr (Finite PI_ft) \<Rightarrow>
             (let el = curve_elements I_deg Da_deg PI_ft
              in case stake_stations (PC_station el) (PT_station el) stake_step of
                   None \<Rightarrow> None
                 | Some (Inl e) \<Rightarrow> Some (Inl e)
                 | Some (Inr sts) \<Rightarrow> Some (render I_deg Da_deg el sts)))
      else Some (Inr Warning))"

section \<open>Evaluating the text functions\<close>

lemmas parse_defs = station_to_ft_def py_float_def strip_def is_space_def parse_floatnumber_def
  is_exp_mark_def parse_number_def parse_exponent_def digits_val_def is_digit_def digit_val_def
  ascii_lower_def is_sign_def to_float_def Let_def

lemma show_nat_digit: "n < 10 \<Longrightarrow> show_nat n = [digit_char n]"
  by (simp add: show_nat.simps)

section \<open>The stake loop\<close>

text \<open>With a positive interval the loop ends, and appends the stations \<open>s\<close>,
  \<open>s + stake_step\<close>, ... that lie below \<open>pt - 1e-6\<close>.\<close>

lemma stake_loop_run:
  assumes "0 < stake_step"
  shows "\<exists>n. stake_loop s pt stake_step acc
              = Some (acc @ map (\<lambda>k. real_of_int (s + int k * stake_step)) [0 ..< n])
           \<and> (\<forall>k<n. real_of_int (s + int k * stake_step) < pt - 1 / 1000000)
           \<and> \<not> real_of_int (s + int n * stake_step) < pt - 1 / 1000000"
proof (induction "nat (\<lceil>pt\<rceil> - s)" arbitrary: s acc rule: less_induct)
  case less
  show ?case
  proof (cases "real_of_int s < pt - 1 / 1000000")
    case False
    then have "stake_loop s pt stake_step acc = Some acc"
      by (subst stake_loop.simps) simp
    with False show ?thesis
      by (intro exI [of _ 0]) simp
  next
    case True
    then have "s < \<lceil>pt\<rceil>" by linarith
    with assms have "nat (\<lceil>pt\<rceil> - (s + stake_step)) < nat (\<lceil>pt\<rceil> - s)" by linarith
    from less [OF this, of "acc @ [real_of_int s]"]
    obtain n where n:
      "stake_loop (s + stake_step) pt stake_step (acc @ [real_of_int s])
         = Some ((acc @ [real_of_int s]) @ map (\<lambda>k. real_of_int (s + stake_step + int k * stake_step)) [0 ..< n])"
      "\<forall>k<n. real_of_int (s + stake_step + int k * stake_step) < pt - 1 / 1000000"
      "\<not> real_of_int (s + stake_step + int n * stake_step) < pt - 1 / 1000000"
      by blast
    have shift: "s + stake_step + int k * stake_step = s + int (Suc k) * stake_step" for k
      by (simp add: algebra_simps)
    have "stake_loop s pt stake_step acc
            = Some (acc @ map (\<lambda>k. real_of_int (s + int k * stake_step)) [0 ..< Suc n])"
      using True n(1) unfolding shift
      by (subst stake_loop.simps) (simp add: map_upt_Suc del: upt_Suc)
    moreover have "\<forall>k<Suc n. real_of_int (s + int k * stake_step) < pt - 1 / 1000000"
    proof (intro allI impI)
      fix k assume "k < Suc n"
      show "real_of_int (s + int k * stake_step) < pt - 1 / 1000000"
      proof (cases k)
        case 0 with True show ?thesis by simp
      next
        case (Suc j)
        with \<open>k < Suc n\<close> n(2) have "real_of_int (s + stake_step + int j * stake_step) < pt - 1 / 1000000" by simp
        then show ?thesis unfolding shift Suc .
      qed
    qed
    moreover have "\<not> real_of_int (s + int (Suc n) * stake_step) < pt - 1 / 1000000"
      using n(3) unfolding shift .
    ultimately show ?thesis by blast
  qed
qed

lemma first_full_ge:
  assumes "0 < stake_step"
  shows "pc + real_of_int stake_step \<le> real_of_int (first_full pc stake_step)"
proof -
  have "(pc + real_of_int stake_step) / real_of_int stake_step
          \<le> real_of_int \<lceil>(pc + real_of_int stake_step) / real_of_int stake_step\<rceil>"
    by linarith
  moreover from assms have "0 < real_of_int stake_step" by simp
  ultimately have "pc + real_of_int stake_step
          \<le> real_of_int \<lceil>(pc + real_of_int stake_step) / real_of_int stake_step\<rceil> * real_of_int stake_step"
    by (simp only: pos_divide_le_eq)
  then show ?thesis by (simp add: first_full_def)
qed

lemma first_full_on_multiple:
  assumes "0 < stake_step" and "pc = real_of_int (m * stake_step)"
  shows "real_of_int (first_full pc stake_step) = pc + real_of_int stake_step"
proof -
  from assms have "(pc + real_of_int stake_step) / real_of_int stake_step = real_of_int (m + 1)"
    by (simp add: field_simps)
  then have "\<lceil>(pc + real_of_int stake_step) / real_of_int stake_step\<rceil> = m + 1"
    by (metis ceiling_of_int)
  then show ?thesis using assms by (simp add: first_full_def algebra_simps)
qed

lemma first_full_next:
  assumes "0 < stake_step"
  shows "first_full pc stake_step = (\<lceil>pc / real_of_int stake_step\<rceil> + 1) * stake_step"
proof -
  from assms have "(pc + real_of_int stake_step) / real_of_int stake_step
      = pc / real_of_int stake_step + 1"
    by (simp add: field_simps)
  then show ?thesis by (simp add: first_full_def)
qed

lemma stake_stations_run:
  assumes "0 < stake_step"
  shows "\<exists>n. stake_stations pc pt stake_step
              = Some (Inr (pc # map (\<lambda>k. real_of_int (first_full pc stake_step + int k * stake_step)) [0 ..< n] @ [pt]))
           \<and> (\<forall>k<n. real_of_int (first_full pc stake_step + int k * stake_step) < pt - 1 / 1000000)
           \<and> \<not> real_of_int (first_full pc stake_step + int n * stake_step) < pt - 1 / 1000000"
proof -
  from stake_loop_run [OF assms, of "first_full pc stake_step" pt "[pc]"]
  obtain n where n:
    "stake_loop (first_full pc stake_step) pt stake_step [pc]
       = Some ([pc] @ map (\<lambda>k. real_of_int (first_full pc stake_step + int k * stake_step)) [0 ..< n])"
    "\<forall>k<n. real_of_int (first_full pc stake_step + int k * stake_step) < pt - 1 / 1000000"
    "\<not> real_of_int (first_full pc stake_step + int n * stake_step) < pt - 1 / 1000000"
    by blast
  from assms n(1) have "stake_stations pc pt stake_step
      = Some (Inr (pc # map (\<lambda>k. real_of_int (first_full pc stake_step + int k * stake_step)) [0 ..< n] @ [pt]))"
    by (simp add: stake_stations_def)
  with n(2,3) show ?thesis by blast
qed

lemma sorted_stakes:
  assumes "0 < stake_step"
  shows "sorted (map (\<lambda>k. real_of_int (a + int k * stake_step)) [0 ..< n])"
proof -
  have "i \<le> j \<Longrightarrow> real_of_int (a + int i * stake_step) \<le> real_of_int (a + int j * stake_step)" for i j
    using assms by (simp add: mult_right_mono)
  then show ?thesis
    by (simp add: sorted_iff_nth_mono)
qed

lemma sorted_stations:
  assumes "0 < stake_step" and "pc \<le> pt"
    and "\<forall>k<n. real_of_int (first_full pc stake_step + int k * stake_step) < pt - 1 / 1000000"
  shows "sorted (pc # map (\<lambda>k. real_of_int (first_full pc stake_step + int k * stake_step)) [0 ..< n] @ [pt])"
proof -
  have ge: "pc \<le> real_of_int (first_full pc stake_step + int k * stake_step)" for k
  proof -
    have "0 \<le> real k * real_of_int stake_step" using assms(1) by simp
    moreover have "0 \<le> real_of_int stake_step" using assms(1) by simp
    moreover have "real_of_int (first_full pc stake_step + int k * stake_step)
        = real_of_int (first_full pc stake_step) + real k * real_of_int stake_step" by simp
    ultimately show ?thesis using first_full_ge [OF assms(1), of pc] by linarith
  qed
  show ?thesis
    using assms ge sorted_stakes [OF assms(1), of "first_full pc stake_step" n]
    by (auto simp: sorted_append less_imp_le)
qed

lemma sorted_deflections:
  assumes "0 < Da_deg" and "sorted sts"
  shows "sorted (deflections Da_deg pc sts)"
proof -
  have "x \<le> y \<Longrightarrow> Da_deg * (x - pc) / 200 \<le> Da_deg * (y - pc) / 200" for x y
    using assms(1) by (simp add: divide_right_mono mult_left_mono)
  with assms(2) show ?thesis
    unfolding deflections_def sorted_map
    by (induction sts) auto
qed

lemma PT_minus_PC:
  "PT_station (curve_elements I_deg Da_deg PI_ft) - PC_station (curve_elements I_deg Da_deg PI_ft)
     = 100 * I_deg / Da_deg"
  by (simp add: curve_elements_def Let_def)


section \<open>The guard on the two angles\<close>

text \<open>
  C7. When \<open>I_deg \<le> 0\<close> or \<open>Da_deg \<le> 0\<close> the script takes the \<open>else\<close> branch: it computes
  no curve element, no table and no coordinate, shows the warning only, and raises
  nothing, whatever the station text and the stake interval are.
\<close>

theorem nonpositive_input_warns_only:
  "I_deg \<le> 0 \<or> Da_deg \<le> 0 \<Longrightarrow> pipeline I_deg Da_deg PI_station_str stake_step = Some (Inr Warning)"
  by (auto simp: pipeline_def)

theorem nonpositive_input_warns_only_witness:
  "((0::real) \<le> 0 \<or> (8::real) \<le> 0) \<and> pipeline 0 8 ''not a station'' 50 = Some (Inr Warning)"
  using nonpositive_input_warns_only [of 0 8 "''not a station''" 50] by simp

section \<open>Stake stations\<close>

text \<open>
  C2. The station list is \<open>PC\<close>, then the intermediate stakes, then \<open>PT\<close>. The first
  intermediate stake is \<open>ceil ((PC + interval) / interval) * interval\<close> (when \<open>PC\<close> is a
  multiple of the interval this is \<open>PC + interval\<close>: the multiple at \<open>PC\<close> itself is not
  staked a second time; in general it is \<open>(ceil (PC / interval) + 1) * interval\<close>); the \<open>k\<close>-th one lies \<open>k\<close> intervals further; an intermediate stake
  is in the list exactly as long as it is strictly below \<open>PT - 1e-6\<close>; and \<open>PT\<close> is the
  last element whatever its distance from the stake before it.
\<close>

theorem stake_stations_shape:
  assumes "0 < stake_step"
  shows "\<exists>n. stake_stations pc pt stake_step
              = Some (Inr (pc # map (\<lambda>k. real_of_int (first_full pc stake_step + int k * stake_step)) [0 ..< n] @ [pt]))
           \<and> first_full pc stake_step
              = \<lceil>(pc + real_of_int stake_step) / real_of_int stake_step\<rceil> * stake_step
           \<and> first_full pc stake_step = (\<lceil>pc / real_of_int stake_step\<rceil> + 1) * stake_step
           \<and> ((\<exists>m. pc = real_of_int (m * stake_step)) \<longrightarrow>
                 real_of_int (first_full pc stake_step) = pc + real_of_int stake_step)
           \<and> (\<forall>k<n. real_of_int (first_full pc stake_step + int k * stake_step) < pt - 1 / 1000000)
           \<and> \<not> real_of_int (first_full pc stake_step + int n * stake_step) < pt - 1 / 1000000"
proof -
  from stake_stations_run [OF assms, of pc pt] obtain n where
    "stake_stations pc pt stake_step
       = Some (Inr (pc # map (\<lambda>k. real_of_int (first_full pc stake_step + int k * stake_step)) [0 ..< n] @ [pt]))"
    "\<forall>k<n. real_of_int (first_full pc stake_step + int k * stake_step) < pt - 1 / 1000000"
    "\<not> real_of_int (first_full pc stake_step + int n * stake_step) < pt - 1 / 1000000"
    by blast
  moreover have "first_full pc stake_step
              = \<lceil>(pc + real_of_int stake_step) / real_of_int stake_step\<rceil> * stake_step"
    by (simp add: first_full_def)
  moreover have "(\<exists>m. pc = real_of_int (m * stake_step)) \<longrightarrow>
                 real_of_int (first_full pc stake_step) = pc + real_of_int stake_step"
    using first_full_on_multiple [OF assms] by blast
  moreover note first_full_next [OF assms, of pc]
  ultimately show ?thesis by blast
qed

theorem stake_stations_shape_witness:
  "(0::int) < 50 \<and>
   (\<exists>n. stake_stations 950 1240 50
              = Some (Inr (950 # map (\<lambda>k. real_of_int (first_full 950 50 + int k * 50)) [0 ..< n] @ [1240]))
           \<and> first_full 950 50 = \<lceil>(950 + real_of_int 50) / real_of_int 50\<rceil> * 50
           \<and> first_full 950 50 = (\<lceil>950 / real_of_int 50\<rceil> + 1) * 50
           \<and> (\<exists>m. (950::real) = real_of_int (m * 50))
           \<and> real_of_int (first_full 950 50) = 950 + real_of_int 50
           \<and> (\<forall>k<n. real_of_int (first_full 950 50 + int k * 50) < 1240 - 1 / 1000000)
           \<and> \<not> real_of_int (first_full 950 50 + int n * 50) < 1240 - 1 / 1000000)"
proof -
  have a: "(0::int) < 50" by simp
  have m: "\<exists>m. (950::real) = real_of_int (m * 50)"
    by (rule exI [of _ 19]) simp
  from stake_stations_shape [OF a, of 950 1240] m show ?thesis
    using a by blast
qed

section \<open>Rounding to an integer and to binary64\<close>

lemma round_half_even_of_int: "round_half_even (of_int m) = m"
  by (simp add: round_half_even_def)

lemma round_half_even_bounds:
  "y - 1/2 \<le> of_int (round_half_even y)" "of_int (round_half_even y) \<le> y + 1/2"
proof -
  show "y - 1/2 \<le> of_int (round_half_even y)"
    unfolding round_half_even_def Let_def by (simp; linarith)
  show "of_int (round_half_even y) \<le> y + 1/2"
    unfolding round_half_even_def Let_def by (simp; linarith)
qed

lemma bits_0: "bits 0 = 0"
  by (simp add: bits.simps [of 0])

lemma bits_1: "bits (Suc 0) = Suc 0"
  by (simp add: bits.simps [of "Suc 0"] bits_0)

lemma bits_bounds: "0 < n \<Longrightarrow> 2 ^ (bits n - 1) \<le> n \<and> n < 2 ^ bits n"
proof (induction n rule: bits.induct)
  case (1 n)
  show ?case
  proof (cases "n div 2 = 0")
    case True
    with 1(2) have "n = 1" by (simp add: div_eq_0_iff)
    then show ?thesis by (simp add: bits_1)
  next
    case False
    with 1 have ih: "2 ^ (bits (n div 2) - 1) \<le> n div 2" "n div 2 < 2 ^ bits (n div 2)"
      by simp_all
    from False have b: "bits n = Suc (bits (n div 2))" "0 < bits (n div 2)"
      using 1(2) by (simp_all add: bits.simps [of n] bits.simps [of "n div 2"])
    have "2 ^ (bits n - 1) = 2 * 2 ^ (bits (n div 2) - 1)"
      using b by (cases "bits (n div 2)") simp_all
    also have "\<dots> \<le> 2 * (n div 2)" using ih(1) by simp
    also have "\<dots> \<le> n" by simp
    finally have lo: "2 ^ (bits n - 1) \<le> n" .
    have "n < 2 * (n div 2) + 2" by presburger
    also have "\<dots> \<le> 2 * 2 ^ bits (n div 2)" using ih(2) by simp
    finally have "n < 2 ^ bits n" by (simp add: b)
    with lo show ?thesis ..
  qed
qed

lemma bits_le: "n < 2 ^ k \<Longrightarrow> bits n \<le> k"
proof (cases "n = 0")
  case True
  then show ?thesis by (simp add: bits_0)
next
  case False
  assume "n < 2 ^ k"
  from False bits_bounds [of n] have "(2::nat) ^ (bits n - 1) \<le> n" by simp
  with \<open>n < 2 ^ k\<close> have "(2::nat) ^ (bits n - 1) < 2 ^ k" by linarith
  then have "bits n - 1 < k" by simp
  then show ?thesis by linarith
qed

lemma exponent2_le:
  assumes "0 < x" "x < 2 ^ k" "0 < k"
  shows "exponent2 x \<le> int k - 1"
proof (cases "1 \<le> x")
  case True
  have "real (nat \<lfloor>x\<rfloor>) \<le> x" using True by simp
  with assms(2) have "real (nat \<lfloor>x\<rfloor>) < 2 ^ k" by linarith
  then have "nat \<lfloor>x\<rfloor> < 2 ^ k" by (metis of_nat_less_iff of_nat_numeral of_nat_power)
  then have "bits (nat \<lfloor>x\<rfloor>) \<le> k" by (rule bits_le)
  with True show ?thesis by (simp add: exponent2_def)
next
  case False
  with assms(3) show ?thesis by (simp add: exponent2_def)
qed

lemma quantum_pos: "0 < quantum x"
  by (simp add: quantum_def Let_def)

lemma quantum_small:
  assumes "\<bar>x\<bar> < 2 ^ k" "0 < k" "k \<le> 53" "x \<noteq> 0"
  shows "\<exists>m. 53 - k \<le> m \<and> quantum x = 1 / 2 ^ m"
proof -
  define e where "e = max (exponent2 \<bar>x\<bar>) (- 1022) - 52"
  have "exponent2 \<bar>x\<bar> \<le> int k - 1"
    using assms by (intro exponent2_le) simp_all
  with assms(2,3) have e: "e \<le> int k - 53" by (simp add: e_def)
  with assms(3) have e0: "e \<le> 0" by linarith
  have q: "quantum x = (if 0 \<le> e then 2 ^ nat e else 1 / 2 ^ nat (- e))"
    by (simp add: quantum_def e_def Let_def)
  have "quantum x = 1 / 2 ^ nat (- e)"
  proof (cases "e = 0")
    case True then show ?thesis by (simp add: q)
  next
    case False with e0 show ?thesis by (simp add: q)
  qed
  moreover have "53 - k \<le> nat (- e)" using e by linarith
  ultimately show ?thesis by blast
qed

lemma binary64_close: "\<bar>binary64 x - x\<bar> \<le> quantum x / 2"
proof (cases "x = 0")
  case True
  then show ?thesis using quantum_pos [of x] by (simp add: binary64_def)
next
  case False
  define q where "q = quantum x"
  have q: "0 < q" unfolding q_def by (rule quantum_pos)
  define y where "y = x / q"
  have x: "x = y * q" using q by (simp add: y_def)
  have "y - 1/2 \<le> of_int (round_half_even y)" "of_int (round_half_even y) \<le> y + 1/2"
    by (rule round_half_even_bounds)+
  then have "\<bar>of_int (round_half_even y) - y\<bar> \<le> 1/2" by linarith
  then have "\<bar>of_int (round_half_even y) - y\<bar> * q \<le> 1/2 * q"
    using q by (intro mult_right_mono) simp_all
  moreover have b: "binary64 x = of_int (round_half_even y) * q"
    using False by (simp add: binary64_def q_def y_def)
  have "binary64 x - x = (of_int (round_half_even y) - y) * q"
    unfolding b using q by (simp add: y_def field_simps)
  ultimately show ?thesis using q by (simp add: abs_mult q_def)
qed


lemma binary64_int:
  assumes "\<bar>k\<bar> < 2 ^ 53"
  shows "binary64 (of_int k) = of_int k"
proof (cases "k = 0")
  case True
  then show ?thesis by (simp add: binary64_def)
next
  case False
  have "\<bar>real_of_int k\<bar> < 2 ^ 53" using assms by (metis of_int_abs of_int_less_numeral_power_cancel_iff)
  from quantum_small [OF this] False obtain m where m: "quantum (of_int k) = 1 / 2 ^ m"
    by auto
  have "real_of_int k / quantum (of_int k) = of_int (k * 2 ^ m)"
    by (simp add: m)
  then have "round_half_even (real_of_int k / quantum (of_int k)) = k * 2 ^ m"
    by (simp only: round_half_even_of_int)
  then show ?thesis using False by (simp add: binary64_def m)
qed

lemma round_half_even_near:
  assumes "\<bar>y - of_int m\<bar> < 1/2"
  shows "round_half_even y = m"
proof -
  have "y - 1/2 \<le> of_int (round_half_even y)" "of_int (round_half_even y) \<le> y + 1/2"
    by (rule round_half_even_bounds)+
  with assms have "real_of_int (round_half_even y) < of_int m + 1"
    "real_of_int m - 1 < of_int (round_half_even y)" by linarith+
  then show ?thesis by linarith
qed

section \<open>Digit strings and the float parser\<close>

lemma digit_char_digit:
  assumes "d < 10"
  shows "is_digit (digit_char d)" and "digit_val (digit_char d) = d"
proof -
  from assms have "d \<in> {0, 1, 2, 3, 4, 5, 6, 7, 8, 9}" by auto
  then show "is_digit (digit_char d)" and "digit_val (digit_char d) = d"
    by (auto simp: digit_char_def is_digit_def digit_val_def)
qed

lemma is_digit_not_special:
  assumes "is_digit c"
  shows "c \<noteq> CHR ''+''" "c \<noteq> CHR ''-''" "c \<noteq> CHR ''.''" "c \<noteq> CHR ''_''"
    "\<not> is_exp_mark c" "\<not> is_space c" "\<not> is_sign c"
    "ascii_lower c = c" "c \<noteq> CHR ''i''" "c \<noteq> CHR ''n''"
  using assms
  by (auto simp: is_digit_def is_exp_mark_def is_space_def is_sign_def ascii_lower_def Let_def)

lemma digitpart_digits: "xs \<noteq> [] \<Longrightarrow> \<forall>c\<in>set xs. is_digit c \<Longrightarrow> digitpart xs"
  by (induction xs rule: digitpart.induct) (auto simp: is_digit_not_special)

lemma filter_digits: "\<forall>c\<in>set xs. is_digit c \<Longrightarrow> filter is_digit xs = xs"
  by (induction xs) auto

lemma foldl_digits_shift:
  "foldl (\<lambda>n c. 10 * n + digit_val c) a ys
     = a * 10 ^ length ys + foldl (\<lambda>n c. 10 * n + digit_val c) 0 ys"
proof (induction ys arbitrary: a)
  case Nil
  show ?case by simp
next
  case (Cons y ys)
  let ?f = "\<lambda>n c. 10 * n + digit_val c"
  have "foldl ?f a (y # ys) = foldl ?f (10 * a + digit_val y) ys" by simp
  also have "\<dots> = (10 * a + digit_val y) * 10 ^ length ys + foldl ?f 0 ys"
    by (rule Cons.IH)
  also have "\<dots> = a * 10 ^ length (y # ys) + (digit_val y * 10 ^ length ys + foldl ?f 0 ys)"
    by (simp add: algebra_simps)
  also have "digit_val y * 10 ^ length ys + foldl ?f 0 ys = foldl ?f (digit_val y) ys"
    by (rule Cons.IH [symmetric])
  also have "foldl ?f (digit_val y) ys = foldl ?f 0 (y # ys)" by simp
  finally show ?case .
qed

lemma digits_val_append:
  assumes "\<forall>c\<in>set xs. is_digit c" and "\<forall>c\<in>set ys. is_digit c"
  shows "digits_val (xs @ ys) = digits_val xs * 10 ^ length ys + digits_val ys"
  using assms foldl_digits_shift [of "digits_val xs" ys]
  by (simp add: digits_val_def filter_digits)

lemma digits_val_single: "is_digit c \<Longrightarrow> digits_val [c] = digit_val c"
  by (simp add: digits_val_def)

lemma show_nat_props:
  "show_nat n \<noteq> [] \<and> (\<forall>c\<in>set (show_nat n). is_digit c) \<and> digits_val (show_nat n) = n"
proof (induction n rule: show_nat.induct)
  case (1 n)
  show ?case
  proof (cases "n < 10")
    case True
    then show ?thesis
      by (simp add: show_nat.simps [of n] digit_char_digit digits_val_single)
  next
    case False
    with 1 have ih: "show_nat (n div 10) \<noteq> []" "\<forall>c\<in>set (show_nat (n div 10)). is_digit c"
      "digits_val (show_nat (n div 10)) = n div 10"
      by simp_all
    have d: "is_digit (digit_char (n mod 10))" "digit_val (digit_char (n mod 10)) = n mod 10"
      by (simp_all add: digit_char_digit)
    have "digits_val (show_nat (n div 10) @ [digit_char (n mod 10)]) = (n div 10) * 10 + n mod 10"
      using ih d by (simp add: digits_val_append digits_val_single)
    with False ih d show ?thesis
      by (simp add: show_nat.simps [of n])
  qed
qed

lemma strip_id:
  assumes "t \<noteq> []" "\<not> is_space (hd t)" "\<not> is_space (last t)"
  shows "strip t = t"
proof -
  from assms have "dropWhile is_space t = t"
    by (cases t) simp_all
  moreover from assms have "dropWhile is_space (rev t) = rev t"
    by (cases "rev t") (simp_all add: hd_rev)
  ultimately show ?thesis by (simp add: strip_def)
qed

lemma parse_number_decimal:
  assumes "d \<noteq> []" "b \<noteq> []" "\<forall>c\<in>set d. is_digit c" "\<forall>c\<in>set b. is_digit c"
  shows "parse_number (d @ ''.'' @ b) = Some (real (digits_val d) + real (digits_val b) / 10 ^ length b)"
proof -
  have tw: "takeWhile (\<lambda>c. c \<noteq> CHR ''.'') (d @ ''.'' @ b) = d"
    using assms(3) by (simp add: takeWhile_append2 is_digit_not_special)
  have dw: "dropWhile (\<lambda>c. c \<noteq> CHR ''.'') (d @ ''.'' @ b) = ''.'' @ b"
    using assms(3) by (simp add: dropWhile_append2 is_digit_not_special)
  show ?thesis
    unfolding parse_number_def tw dw Let_def
    using assms by (simp add: digitpart_digits filter_digits)
qed

lemma py_float_decimal:
  assumes "d \<noteq> []" "b \<noteq> []" "\<forall>c\<in>set d. is_digit c" "\<forall>c\<in>set b. is_digit c"
  shows "py_float (d @ ''.'' @ b) = Inr (to_float False (real (digits_val d) + real (digits_val b) / 10 ^ length b))"
proof -
  let ?t = "d @ ''.'' @ b"
  have hd_t: "is_digit (hd ?t)" using assms(1,3) by (cases d) simp_all
  have last_t: "is_digit (last ?t)" using assms(2,4) by simp
  have st: "strip ?t = ?t"
    using hd_t last_t by (intro strip_id) (simp_all add: is_digit_not_special)
  have dot: "\<not> is_exp_mark CHR ''.''" by (simp add: is_exp_mark_def)
  have all: "\<forall>c\<in>set ?t. \<not> is_exp_mark c"
    using assms(3,4) dot by (auto simp: is_digit_not_special(5))
  have tw: "takeWhile (\<lambda>c. \<not> is_exp_mark c) ?t = ?t"
    using all by (intro takeWhile_eq_all_conv [THEN iffD2]) blast
  have dw: "dropWhile (\<lambda>c. \<not> is_exp_mark c) ?t = []"
    using all by (intro dropWhile_eq_Nil_conv [THEN iffD2]) blast
  have pf: "parse_floatnumber ?t = parse_number ?t"
    unfolding parse_floatnumber_def tw dw Let_def by simp
  have hd_low: "hd (map ascii_lower ?t) = hd ?t"
    using assms(1) hd_t by (cases d) (simp_all add: is_digit_not_special)
  have low: "map ascii_lower ?t \<noteq> ''inf''" "map ascii_lower ?t \<noteq> ''infinity''"
    "map ascii_lower ?t \<noteq> ''nan''"
    using hd_low hd_t is_digit_not_special(9,10) [of "hd ?t"] by (metis list.sel(1))+
  have sg: "\<not> is_sign (hd ?t)" "hd ?t \<noteq> CHR ''-''"
    using hd_t by (simp_all add: is_digit_not_special)
  show ?thesis
    unfolding py_float_def st Let_def
    using low sg pf parse_number_decimal [OF assms] by simp
qed

lemma station_to_ft_decimal:
  assumes "g \<noteq> []" "a \<noteq> []" "b \<noteq> []"
    and "\<forall>c\<in>set g. is_digit c" "\<forall>c\<in>set a. is_digit c" "\<forall>c\<in>set b. is_digit c"
  shows "station_to_ft (g @ ''+'' @ a @ ''.'' @ b)
           = Inr (to_float False (real (digits_val (g @ a)) + real (digits_val b) / 10 ^ length b))"
proof -
  have f: "filter (\<lambda>c. c \<noteq> CHR ''+'') (g @ ''+'' @ a @ ''.'' @ b) = (g @ a) @ ''.'' @ b"
    using assms(4-6) by (simp add: is_digit_not_special filter_id_conv)
  have "py_float ((g @ a) @ ''.'' @ b)
          = Inr (to_float False (real (digits_val (g @ a)) + real (digits_val b) / 10 ^ length b))"
    using assms by (intro py_float_decimal) auto
  then show ?thesis
    unfolding station_to_ft_def Let_def f .
qed


lemma digit_val_le: "is_digit c \<Longrightarrow> digit_val c \<le> 9"
  by (auto simp: is_digit_def digit_val_def Let_def)

lemma digits_val_lt: "\<forall>c\<in>set xs. is_digit c \<Longrightarrow> digits_val xs < 10 ^ length xs"
proof (induction xs rule: rev_induct)
  case Nil
  show ?case by (simp add: digits_val_def)
next
  case (snoc c xs)
  then have ih: "digits_val xs < 10 ^ length xs" and c: "is_digit c" and xs: "\<forall>c\<in>set xs. is_digit c"
    by simp_all
  have "digits_val (xs @ [c]) = digits_val xs * 10 + digit_val c"
    using digits_val_append [OF xs, of "[c]"] c by (simp add: digits_val_single)
  also have "\<dots> \<le> (10 ^ length xs - 1) * 10 + 9"
    using ih digit_val_le [OF c] by (intro add_mono mult_right_mono) simp_all
  also have "\<dots> < 10 ^ length (xs @ [c])" by (simp add: algebra_simps)
  finally show ?case .
qed

lemma ten_300_below_overflow: "(10::real) ^ 300 + 1 \<le> 2 ^ 1024 - 2 ^ 970"
  by simp

lemma decimal_below_overflow:
  assumes "\<forall>c\<in>set d. is_digit c" "\<forall>c\<in>set b. is_digit c" "length d \<le> 300"
  shows "real (digits_val d) + real (digits_val b) / 10 ^ length b < 2 ^ 1024 - 2 ^ 970"
proof -
  have "digits_val d < 10 ^ length d" by (rule digits_val_lt [OF assms(1)])
  then have "real (digits_val d) < 10 ^ length d"
    by (metis of_nat_less_iff of_nat_numeral of_nat_power)
  also have "\<dots> \<le> 10 ^ 300" using assms(3) by (intro power_increasing) simp_all
  finally have d: "real (digits_val d) < 10 ^ 300" .
  have "digits_val b < 10 ^ length b" by (rule digits_val_lt [OF assms(2)])
  then have "real (digits_val b) < 10 ^ length b"
    by (metis of_nat_less_iff of_nat_numeral of_nat_power)
  then have "real (digits_val b) / 10 ^ length b < 1" by simp
  with d ten_300_below_overflow show ?thesis by linarith
qed

lemma to_float_finite: "v < 2 ^ 1024 - 2 ^ 970 \<Longrightarrow> to_float False v = Finite (binary64 v)"
  by (simp add: to_float_def)

lemma binary64_1000: "binary64 1000 = 1000"
  using binary64_int [of 1000] by simp


section \<open>Rounding and the station format\<close>

lemma round_half_even_nonneg: "0 \<le> y \<Longrightarrow> 0 \<le> round_half_even y"
proof -
  assume "0 \<le> y"
  then have "0 \<le> \<lfloor>y\<rfloor>" by simp
  then show ?thesis by (auto simp: round_half_even_def Let_def)
qed

lemma round_half_even_offset:
  assumes "0 \<le> r" "r < 100"
  shows "round_half_even (r * 100) \<le> 10000"
    and "round_half_even (r * 100) = 10000 \<longleftrightarrow> 99995 / 1000 \<le> r"
proof -
  have b: "of_int (round_half_even (r * 100)) \<le> r * 100 + 1/2"
    "r * 100 - 1/2 \<le> of_int (round_half_even (r * 100))"
    by (rule round_half_even_bounds)+
  from b(1) assms(2) have "real_of_int (round_half_even (r * 100)) < 10001" by linarith
  then show le: "round_half_even (r * 100) \<le> 10000" by linarith
  show "round_half_even (r * 100) = 10000 \<longleftrightarrow> 99995 / 1000 \<le> r"
  proof
    assume "round_half_even (r * 100) = 10000"
    with b(1) show "99995 / 1000 \<le> r" by simp
  next
    assume h: "99995 / 1000 \<le> r"
    with assms(2) have fl: "\<lfloor>r * 100\<rfloor> = 9999" by linarith
    from h have "1/2 \<le> r * 100 - 9999" by simp
    then show "round_half_even (r * 100) = 10000"
      by (auto simp: round_half_even_def Let_def fl)
  qed
qed

lemma show_nat_two: "n < 100 \<Longrightarrow>
    show_nat n = (if n < 10 then [digit_char n] else [digit_char (n div 10), digit_char (n mod 10)])"
proof (cases "n < 10")
  case True
  then show ?thesis by (simp add: show_nat_digit)
next
  case False
  assume "n < 100"
  then have "n div 10 < 10" by simp
  then have "show_nat (n div 10) = [digit_char (n div 10)]" by (rule show_nat_digit)
  with False show ?thesis by (subst show_nat.simps) simp
qed

lemma show_nat_100: "show_nat 100 = ''100''"
proof -
  have "show_nat 100 = show_nat 10 @ [digit_char 0]"
    by (subst show_nat.simps) simp
  also have "show_nat 10 = [digit_char 1, digit_char 0]"
    by (simp add: show_nat_two)
  finally show ?thesis by (simp add: digit_char_def)
qed

lemma digit_char_0: "digit_char 0 = CHR ''0''"
  by (simp add: digit_char_def)

lemma fmt_05_2f_offset:
  assumes "0 \<le> r" "r < 100"
  shows "fmt_05_2f r =
    (let n = nat (round_half_even (r * 100)) in
     if 99995 / 1000 \<le> r then ''100.00''
     else [digit_char (n div 1000), digit_char (n div 100 mod 10), CHR ''.'',
           digit_char (n div 10 mod 10), digit_char (n mod 10)])"
proof (cases "99995 / 1000 \<le> r")
  case True
  with round_half_even_offset(2) [OF assms] have "round_half_even (r * 100) = 10000" by simp
  then have "fmt_2f_digits r = ''100.00''"
    using assms(1) by (simp add: fmt_2f_digits_def show_nat_100 digit_char_0)
  with True assms(1) show ?thesis
    by (simp add: fmt_05_2f_def)
next
  case False
  define n where "n = nat (round_half_even (r * 100))"
  from False round_half_even_offset [OF assms] have "round_half_even (r * 100) < 10000" by linarith
  then have n: "n < 10000" by (simp add: n_def)
  then have h: "n div 100 < 100" by simp
  have d1: "n div 100 div 10 = n div 1000" by (simp add: div_mult2_eq [symmetric])
  have d2: "n mod 100 div 10 = n div 10 mod 10"
  proof -
    have "n mod 100 = 10 * (n div 10 mod 10) + n mod 10"
      using mod_mult2_eq [of n 10 10] by simp
    then show ?thesis by simp
  qed
  have body: "fmt_2f_digits r = show_nat (n div 100) @ ''.'' @ [digit_char (n div 10 mod 10), digit_char (n mod 10)]"
    using assms(1) by (simp add: fmt_2f_digits_def n_def [symmetric] d2)
  show ?thesis
  proof (cases "n div 100 < 10")
    case True
    then have "n div 1000 = 0" by simp
    moreover from True have "n div 100 mod 10 = n div 100" by simp
    ultimately show ?thesis
      using False assms(1) True
      by (simp add: fmt_05_2f_def body show_nat_two n_def [symmetric] digit_char_0)
  next
    case F: False
    then show ?thesis
      using False assms(1) h
      by (simp add: fmt_05_2f_def body show_nat_two d1 n_def [symmetric])
  qed
qed

lemma offset_range:
  "0 \<le> x - of_int \<lfloor>x / 100\<rfloor> * 100" "x - of_int \<lfloor>x / 100\<rfloor> * 100 < 100"
proof -
  have "of_int \<lfloor>x / 100\<rfloor> \<le> x / 100" "x / 100 < of_int \<lfloor>x / 100\<rfloor> + 1" by linarith+
  then show "0 \<le> x - of_int \<lfloor>x / 100\<rfloor> * 100" "x - of_int \<lfloor>x / 100\<rfloor> * 100 < 100"
    by (simp_all add: field_simps)
qed

lemma round_half_even_close:
  assumes "0 \<le> y"
  shows "\<bar>real (nat (round_half_even y)) - y\<bar> \<le> 1/2"
proof -
  from round_half_even_nonneg [OF assms]
  have "real (nat (round_half_even y)) = real_of_int (round_half_even y)" by simp
  with round_half_even_bounds [of y] show ?thesis by linarith
qed

lemma ft_to_station_offset:
  assumes "0 \<le> x"
  shows "(let g = \<lfloor>x / 100\<rfloor>; r = x - of_int g * 100; n = nat (round_half_even (r * 100)) in
            0 \<le> g \<and> 0 \<le> r \<and> r < 100 \<and> \<bar>real n - r * 100\<bar> \<le> 1/2
          \<and> ft_to_station x = show_nat (nat g) @ ''+'' @ fmt_05_2f r
          \<and> fmt_05_2f r =
              (if 99995 / 1000 \<le> r then ''100.00''
               else [digit_char (n div 1000), digit_char (n div 100 mod 10), CHR ''.'',
                     digit_char (n div 10 mod 10), digit_char (n mod 10)]))"
proof -
  define g where "g = \<lfloor>x / 100\<rfloor>"
  define r where "r = x - of_int g * 100"
  have r: "0 \<le> r" "r < 100" unfolding r_def g_def by (rule offset_range)+
  from assms have g: "0 \<le> g" unfolding g_def by simp
  from r(1) have c: "\<bar>real (nat (round_half_even (r * 100))) - r * 100\<bar> \<le> 1/2"
    by (intro round_half_even_close) simp
  from g have st: "ft_to_station x = show_nat (nat g) @ ''+'' @ fmt_05_2f r"
    by (simp add: ft_to_station_def Let_def g_def [symmetric] r_def [symmetric] show_int_def)
  from g r c st fmt_05_2f_offset [OF r] show ?thesis
    unfolding Let_def g_def [symmetric] r_def [symmetric] by simp
qed

text \<open>
  C9. For a distance \<open>x \<ge> 0\<close> the text is the group \<open>floor (x / 100)\<close>, a plus sign, and
  the offset \<open>r = x - 100 * floor (x / 100)\<close>, which lies in \<open>[0, 100)\<close>, in the format
  \<open>05.2f\<close>: with \<open>n\<close> the offset in hundredths rounded to the nearest integer, the four
  digits of \<open>n\<close> around a point (two decimals, width five, zero-padded). When the offset
  rounds up to a hundred (\<open>r \<ge> 99.995\<close>) the offset text is \<open>100.00\<close> and the group is
  still \<open>floor (x / 100)\<close>: nothing is carried into the group.
\<close>

theorem ft_to_station_nonneg:
  assumes "0 \<le> x"
  shows "(let g = \<lfloor>x / 100\<rfloor>; r = x - of_int g * 100; n = nat (round_half_even (r * 100)) in
            0 \<le> g \<and> 0 \<le> r \<and> r < 100 \<and> \<bar>real n - r * 100\<bar> \<le> 1/2
          \<and> ft_to_station x = show_nat (nat g) @ ''+'' @ fmt_05_2f r
          \<and> fmt_05_2f r =
              (if 99995 / 1000 \<le> r then ''100.00''
               else [digit_char (n div 1000), digit_char (n div 100 mod 10), CHR ''.'',
                     digit_char (n div 10 mod 10), digit_char (n mod 10)]))"
  using assms by (rule ft_to_station_offset)

theorem ft_to_station_nonneg_witness:
  "(0::real) \<le> 199996 / 1000 \<and> ft_to_station (199996 / 1000) = ''1+100.00''"
proof -
  have a: "(0::real) \<le> 199996 / 1000" by simp
  have f: "\<lfloor>(199996 / 1000 :: real) / 100\<rfloor> = 1" by linarith
  from ft_to_station_nonneg [OF a]
  have "ft_to_station (199996 / 1000) = show_nat (nat 1) @ ''+'' @ fmt_05_2f (199996 / 1000 - 100)"
    and "fmt_05_2f (199996 / 1000 - 100) = ''100.00''"
    unfolding Let_def f by simp_all
  then show ?thesis
    by (simp add: show_nat_digit digit_char_def)
qed



lemma four_digits:
  fixes a1 a2 b1 b2 :: nat
  assumes "a1 < 10" "a2 < 10" "b1 < 10" "b2 < 10"
  defines "m \<equiv> 1000 * a1 + 100 * a2 + 10 * b1 + b2"
  shows "m div 1000 = a1" "m div 100 mod 10 = a2" "m div 10 mod 10 = b1" "m mod 10 = b2"
proof -
  have "m = a1 * 1000 + (100 * a2 + 10 * b1 + b2)" by (simp add: m_def)
  moreover have "100 * a2 + 10 * b1 + b2 < 1000" using assms(2-4) by linarith
  ultimately show "m div 1000 = a1" by simp
  have "m = (10 * a1 + a2) * 100 + (10 * b1 + b2)" by (simp add: m_def)
  moreover have "10 * b1 + b2 < 100" using assms(3,4) by linarith
  ultimately have "m div 100 = 10 * a1 + a2" by simp
  then show "m div 100 mod 10 = a2" using assms(2) by simp
  have "m = (100 * a1 + 10 * a2 + b1) * 10 + b2" by (simp add: m_def)
  with assms(4) have "m div 10 = (10 * a1 + a2) * 10 + b1" by simp
  then show "m div 10 mod 10 = b1" using assms(3) by (simp only: mod_mult_self3 mod_less)
  have "m = (100 * a1 + 10 * a2 + b1) * 10 + b2" by (simp add: m_def)
  then have "m mod 10 = b2 mod 10" by (simp only: mod_mult_self3)
  then show "m mod 10 = b2" using assms(4) by simp
qed

lemma digits_val_pair:
  assumes "a < 10" "b < 10"
  shows "digits_val [digit_char a, digit_char b] = 10 * a + b"
  using assms by (simp add: digits_val_def digit_char_digit)

lemma binary64_105: "binary64 105 = 105"
  using binary64_int [of 105] by simp

lemma pow44_below_overflow: "(2::real) ^ 44 < 2 ^ 1024 - 2 ^ 970"
  by simp

section \<open>The round trip of a station text\<close>

text \<open>
  C5 (as amended). A station text made of a group below \<open>10^11\<close> written as \<open>str\<close> writes
  a natural number (no sign, no leading zeros), a plus sign, and an offset of exactly two
  integer digits, a point and two fractional digits, is read as the binary64 number next
  to \<open>100 * group + offset\<close> and written back as the same text.
\<close>

theorem station_round_trip:
  assumes "n < 10 ^ 11" "a1 < 10" "a2 < 10" "b1 < 10" "b2 < 10"
    and "s = show_nat n @ ''+'' @ [digit_char a1, digit_char a2] @ ''.'' @ [digit_char b1, digit_char b2]"
    and "v = real (100 * n + 10 * a1 + a2) + real (10 * b1 + b2) / 100"
  shows "station_to_ft s = Inr (Finite (binary64 v)) \<and> ft_to_station (binary64 v) = s"
proof -
  let ?a = "[digit_char a1, digit_char a2]" and ?b = "[digit_char b1, digit_char b2]"
  have da: "\<forall>c\<in>set ?a. is_digit c" and db: "\<forall>c\<in>set ?b. is_digit c"
    using assms(2-5) by (simp_all add: digit_char_digit)
  have dg: "show_nat n \<noteq> []" "\<forall>c\<in>set (show_nat n). is_digit c" "digits_val (show_nat n) = n"
    using show_nat_props [of n] by simp_all
  have "digits_val (show_nat n @ ?a) = n * 10 ^ length ?a + digits_val ?a"
    using digits_val_append [OF dg(2) da] dg(3) by simp
  then have v1: "digits_val (show_nat n @ ?a) = 100 * n + 10 * a1 + a2"
    using digits_val_pair [OF assms(2,3)] by simp
  have v2: "digits_val ?b = 10 * b1 + b2" by (rule digits_val_pair [OF assms(4,5)])
  have "station_to_ft (show_nat n @ ''+'' @ ?a @ ''.'' @ ?b)
          = Inr (to_float False (real (digits_val (show_nat n @ ?a)) + real (digits_val ?b) / 10 ^ length ?b))"
    using dg(1,2) da db by (intro station_to_ft_decimal) simp_all
  then have parse0: "station_to_ft s = Inr (to_float False v)"
    unfolding v1 v2 assms(6,7) by simp
  define r where "r = real (10 * a1 + a2) + real (10 * b1 + b2) / 100"
  define m where "m = 1000 * a1 + 100 * a2 + 10 * b1 + b2"
  have vr: "v = real n * 100 + r" by (simp add: assms(7) r_def)
  have rm: "r * 100 = real m" by (simp add: r_def m_def)
  have r0: "0 \<le> r" by (simp add: r_def)
  have "real (10 * a1 + a2) \<le> 99" "real (10 * b1 + b2) \<le> 99"
    using assms(2-5) by linarith+
  moreover have "A + B / 100 \<le> 9999 / 100" if "A \<le> 99" "B \<le> 99" for A B :: real
    using that by simp
  ultimately have r1: "r \<le> 9999 / 100" unfolding r_def by blast
  have nn: "n \<le> 99999999999" using assms(1) by simp
  then have "real n \<le> 99999999999" by (metis of_nat_le_iff of_nat_numeral)
  then have vlt: "v < 10000000000000" using r1 unfolding vr by linarith
  have v0: "0 \<le> v" using r0 by (simp add: vr)
  have v44: "\<bar>v\<bar> < 2 ^ 44" using vlt v0 by simp
  then have "v < 2 ^ 1024 - 2 ^ 970" using pow44_below_overflow by linarith
  then have parse: "station_to_ft s = Inr (Finite (binary64 v))"
    using parse0 by (simp add: to_float_finite)
  define x where "x = binary64 v"
  have close: "\<bar>x - v\<bar> \<le> 1 / 1024"
  proof (cases "v = 0")
    case True then show ?thesis by (simp add: x_def binary64_def)
  next
    case False
    from quantum_small [OF v44 _ _ False] obtain k where k: "53 - 44 \<le> k" "quantum v = 1 / 2 ^ k"
      by auto
    have "(2::real) ^ 9 \<le> 2 ^ k" using k(1) by (intro power_increasing) simp_all
    then have "quantum v \<le> 1 / 2 ^ 9" unfolding k(2) by (simp add: field_simps)
    with binary64_close [of v] show ?thesis unfolding x_def by simp
  qed
  have lower: "real n * 100 \<le> x"
  proof (cases "m = 0")
    case True
    with rm have "r = 0" by simp
    then have "v = real_of_int (int (100 * n))" by (simp add: vr)
    moreover have "\<bar>int (100 * n)\<bar> < 2 ^ 53" using nn by simp
    ultimately have "x = v" unfolding x_def by (simp only: binary64_int)
    then show ?thesis using r0 by (simp add: vr)
  next
    case False
    then have "1 \<le> real m" by simp
    with rm have "1 / 100 \<le> r" by simp
    with close show ?thesis unfolding vr by linarith
  qed
  have upper: "x < real n * 100 + 9999 / 100 + 1 / 1000"
    using close r1 unfolding vr by linarith
  have "\<lfloor>x / 100\<rfloor> = int n"
    using lower upper by (intro floor_unique) (simp_all add: field_simps)
  then have fl1: "\<lfloor>x / 100\<rfloor> = int n" .
  define r' where "r' = x - real n * 100"
  have fl2: "x - real_of_int (int n) * 100 = r'" by (simp add: r'_def)
  have x0: "0 \<le> x" using lower by (smt (verit) mult_nonneg_nonneg of_nat_0_le_iff)
  have "\<bar>r' - r\<bar> \<le> 1 / 1024" using close unfolding r'_def vr by linarith
  then have "\<bar>r' * 100 - real_of_int (int m)\<bar> < 1 / 2"
    using rm by linarith
  then have "round_half_even (r' * 100) = int m" by (rule round_half_even_near)
  then have rnd: "nat (round_half_even (r' * 100)) = m" by simp
  from upper have small: "\<not> 99995 / 1000 \<le> r'" by (simp add: r'_def)
  note st = ft_to_station_offset [OF x0, unfolded Let_def fl1 fl2 rnd]
  from st have "ft_to_station x = show_nat n @ ''+'' @ fmt_05_2f r'"
    by simp
  moreover from st small
  have "fmt_05_2f r' = [digit_char (m div 1000), digit_char (m div 100 mod 10), CHR ''.'',
                     digit_char (m div 10 mod 10), digit_char (m mod 10)]"
    by simp
  ultimately have "ft_to_station x = s"
    unfolding m_def four_digits [OF assms(2-5)] assms(6) by simp
  with parse show ?thesis unfolding x_def ..
qed


theorem station_round_trip_witness:
  "(7::nat) < 10 ^ 11 \<and> (3::nat) < 10 \<and> (9::nat) < 10 \<and> (6::nat) < 10
   \<and> station_to_ft ''7+39.36'' = Inr (Finite (binary64 (73936 / 100)))
   \<and> ft_to_station (binary64 (73936 / 100)) = ''7+39.36''"
proof -
  have n: "(7::nat) < 10 ^ 11" by simp
  have a: "(3::nat) < 10" and b: "(9::nat) < 10" and c: "(6::nat) < 10" by simp_all
  have s: "''7+39.36'' = show_nat 7 @ ''+'' @ [digit_char 3, digit_char 9] @ ''.'' @ [digit_char 3, digit_char 6]"
    by (simp add: show_nat_digit digit_char_def)
  have x: "(73936 / 100 :: real) = real (100 * 7 + 10 * 3 + 9) + real (10 * 3 + 6) / 100"
    by simp
  from station_round_trip [OF n a b a c s x] n a b c show ?thesis by simp
qed

theorem station_round_trip_counterexample:
  "station_to_ft ''10+5.00'' = Inr (Finite 105) \<and> ft_to_station 105 = ''1+05.00''
   \<and> ''1+05.00'' \<noteq> ''10+5.00''"
proof -
  have "station_to_ft ''10+5.00'' = Inr (Finite 105)"
    by (simp add: parse_defs binary64_105)
  moreover have "ft_to_station 105 = ''1+05.00''"
    apply (simp add: ft_to_station_def Let_def)
    apply (simp add: fmt_05_2f_def fmt_2f_digits_def Let_def round_half_even_def)
    apply (simp add: show_int_def show_nat_digit digit_char_def)
    done
  ultimately show ?thesis by simp
qed

section \<open>Reading a station text\<close>

text \<open>
  C8 (as amended). \<open>station_to_ft\<close> deletes every plus sign and reads what is left as
  one decimal number, rounded to binary64: for digit strings \<open>g\<close>, \<open>a\<close>, \<open>b\<close> with at most
  300 digits in \<open>g\<close> and \<open>a\<close> together, the text \<open>g+a.b\<close> is the number whose integer digits
  are \<open>g\<close> followed by \<open>a\<close> (so \<open>10+00.00\<close> is \<open>1000.00\<close>), and the same text without its
  plus sign, or with a second one, is read as the same number: the shape
  \<open>integer+decimal\<close> is not checked. The only failure is the \<open>ValueError\<close> of \<open>float\<close>.
\<close>

theorem station_to_ft_concatenates:
  assumes "g \<noteq> []" "a \<noteq> []" "b \<noteq> []"
    and "\<forall>c\<in>set g. is_digit c" "\<forall>c\<in>set a. is_digit c" "\<forall>c\<in>set b. is_digit c"
    and "length (g @ a) \<le> 300"
  shows "station_to_ft (g @ ''+'' @ a @ ''.'' @ b)
           = Inr (Finite (binary64 (real (digits_val (g @ a)) + real (digits_val b) / 10 ^ length b)))
       \<and> digits_val (g @ a) = digits_val g * 10 ^ length a + digits_val a
       \<and> station_to_ft (g @ a @ ''.'' @ b) = station_to_ft (g @ ''+'' @ a @ ''.'' @ b)
       \<and> station_to_ft (g @ ''+'' @ a @ ''+'' @ ''.'' @ b) = station_to_ft (g @ ''+'' @ a @ ''.'' @ b)
       \<and> (\<forall>sta e. station_to_ft sta = Inl e \<longrightarrow> e = ValueError)"
proof -
  have "filter (\<lambda>c. c \<noteq> CHR ''+'') (g @ ''+'' @ a @ ''.'' @ b) = g @ a @ ''.'' @ b"
    "filter (\<lambda>c. c \<noteq> CHR ''+'') (g @ a @ ''.'' @ b) = g @ a @ ''.'' @ b"
    "filter (\<lambda>c. c \<noteq> CHR ''+'') (g @ ''+'' @ a @ ''+'' @ ''.'' @ b) = g @ a @ ''.'' @ b"
    using assms(4-6) by (simp_all add: is_digit_not_special filter_id_conv)
  then have same: "station_to_ft (g @ a @ ''.'' @ b) = station_to_ft (g @ ''+'' @ a @ ''.'' @ b)"
    "station_to_ft (g @ ''+'' @ a @ ''+'' @ ''.'' @ b) = station_to_ft (g @ ''+'' @ a @ ''.'' @ b)"
    by (simp_all add: station_to_ft_def)
  have err: "\<forall>sta e. station_to_ft sta = Inl e \<longrightarrow> e = ValueError"
    by (auto simp: station_to_ft_def py_float_def Let_def split: if_splits option.splits)
  have "\<forall>c\<in>set (g @ a). is_digit c" using assms(4,5) by auto
  from decimal_below_overflow [OF this assms(6,7)]
  have "to_float False (real (digits_val (g @ a)) + real (digits_val b) / 10 ^ length b)
      = Finite (binary64 (real (digits_val (g @ a)) + real (digits_val b) / 10 ^ length b))"
    by (rule to_float_finite)
  with station_to_ft_decimal [OF assms(1-6)] digits_val_append [OF assms(4,5)] same err
  show ?thesis by simp
qed

theorem station_to_ft_concatenates_witness:
  "length (''10'' @ ''00'') \<le> 300
   \<and> station_to_ft ''10+00.00'' = Inr (Finite 1000)
   \<and> binary64 (real (digits_val ''1000'') + real (digits_val ''00'') / 10 ^ length ''00'') = 1000
   \<and> digits_val ''1000'' = digits_val ''10'' * 10 ^ length ''00'' + digits_val ''00''
   \<and> station_to_ft ''1000.00'' = station_to_ft ''10+00.00''
   \<and> station_to_ft ''10+00+.00'' = station_to_ft ''10+00.00''"
proof -
  have d: "\<forall>c\<in>set ''10''. is_digit c" "\<forall>c\<in>set ''00''. is_digit c"
    by (simp_all add: is_digit_def)
  have n: "''10'' \<noteq> []" "''00'' \<noteq> []" by simp_all
  have l: "length (''10'' @ ''00'') \<le> 300" by simp
  have v: "binary64 (real (digits_val ''1000'') + real (digits_val ''00'') / 10 ^ length ''00'') = 1000"
    by (simp add: digits_val_def is_digit_def digit_val_def binary64_1000)
  from station_to_ft_concatenates [OF n(1) n(2) n(2) d(1) d(2) d(2) l] v l
  show ?thesis by simp
qed

theorem station_to_ft_counterexample:
  "station_to_ft ''1000.00'' = Inr (Finite 1000) \<and> station_to_ft ''1+0+0+0'' = Inr (Finite 1000)"
  by (simp add: parse_defs binary64_1000)

section \<open>Bounds on sine, pi and the square root of three\<close>

lemma sin_taylor5:
  fixes x :: real
  shows "\<bar>sin x - (x - x ^ 3 / 6)\<bar> \<le> \<bar>x\<bar> ^ 5 / 120"
proof -
  have c: "sin_coeff (Suc 0) = 1" "sin_coeff 2 = 0" "sin_coeff 3 = - 1 / 6" "sin_coeff 4 = 0"
    by (simp_all add: sin_coeff_def fact_numeral)
  have "(\<Sum>m<5. sin_coeff m * x ^ m)
      = sin_coeff 0 * x ^ 0 + sin_coeff 1 * x ^ 1 + sin_coeff 2 * x ^ 2 + sin_coeff 3 * x ^ 3
        + sin_coeff 4 * x ^ 4"
    by (simp add: numeral_eq_Suc)
  also have "\<dots> = x - x ^ 3 / 6"
    by (simp add: c)
  finally have e: "(\<Sum>m<5. sin_coeff m * x ^ m) = x - x ^ 3 / 6" .
  have f: "(fact 5 :: real) = 120" by (simp add: fact_numeral)
  have "\<bar>sin x - (\<Sum>m<5. sin_coeff m * x ^ m)\<bar> \<le> inverse (fact 5) * \<bar>x\<bar> ^ 5"
    by (rule Maclaurin_sin_bound)
  then show ?thesis
    unfolding e f by (simp add: field_simps)
qed

lemma sin_lower:
  fixes x :: real
  assumes "0 \<le> x"
  shows "x - x ^ 3 / 6 - x ^ 5 / 120 \<le> sin x"
proof -
  from assms have "\<bar>x\<bar> = x" by simp
  with sin_taylor5 [of x] have "\<bar>sin x - (x - x ^ 3 / 6)\<bar> \<le> x ^ 5 / 120" by simp
  then show ?thesis by linarith
qed

lemma sin_upper:
  fixes x :: real
  assumes "0 \<le> x"
  shows "sin x \<le> x - x ^ 3 / 6 + x ^ 5 / 120"
proof -
  from assms have "\<bar>x\<bar> = x" by simp
  with sin_taylor5 [of x] have "\<bar>sin x - (x - x ^ 3 / 6)\<bar> \<le> x ^ 5 / 120" by simp
  then show ?thesis by linarith
qed

lemma pi_gt_312: "312 / 100 < pi"
proof -
  have "sin (52/100 :: real) \<le> 52/100 - (52/100) ^ 3 / 6 + (52/100) ^ 5 / 120"
    by (rule sin_upper) simp
  also have "\<dots> < 1/2" by (simp add: power_divide)
  finally have "sin (52/100 :: real) < sin (pi / 6)" by (simp add: sin_30)
  moreover have "(52/100 :: real) \<le> pi / 2" "- (pi / 2) \<le> (52/100 :: real)"
    using pi_ge_two by simp_all
  moreover have "pi / 6 \<le> pi / 2" "- (pi / 2) \<le> pi / 6" by simp_all
  ultimately have "(52/100 :: real) < pi / 6"
    using sin_mono_less_eq [of "52/100" "pi / 6"] by blast
  then show ?thesis by simp
qed

lemma pi_lt_318: "pi < 318 / 100"
proof -
  have "(1/2 :: real) < 53/100 - (53/100) ^ 3 / 6 - (53/100) ^ 5 / 120"
    by (simp add: power_divide)
  also have "\<dots> \<le> sin (53/100 :: real)"
    by (rule sin_lower) simp
  finally have "sin (pi / 6) < sin (53/100 :: real)" by (simp add: sin_30)
  moreover have "(53/100 :: real) \<le> pi / 2" "- (pi / 2) \<le> (53/100 :: real)"
    using pi_ge_two by simp_all
  moreover have "pi / 6 \<le> pi / 2" "- (pi / 2) \<le> pi / 6" by simp_all
  ultimately have "pi / 6 < (53/100 :: real)"
    using sin_mono_less_eq [of "pi / 6" "53/100"] by blast
  then show ?thesis by simp
qed


lemma math_tan_nonpole: "cos x \<noteq> 0 \<Longrightarrow> math_tan x = tan x"
  by (simp add: math_tan_def)






section \<open>The P.I. coordinate at a straight angle\<close>




section \<open>A negative P.C. station\<close>







section \<open>Chords\<close>

lemma fold_chord_step:
  "fold (chord_step r ds) ns (t, e)
     = (t @ map (\<lambda>i. py_round2 (chord_inc r ds i)) ns, e @ map (\<lambda>i. py_round2 (chord_cum r ds i)) ns)"
  by (induction ns arbitrary: t e) (simp_all add: chord_step_def chord_inc_def chord_cum_def Let_def)

lemma chord_table_eq:
  "chord_table r ds
     = (0 # map (\<lambda>i. py_round2 (chord_inc r ds i)) [1 ..< length ds],
        0 # map (\<lambda>i. py_round2 (chord_cum r ds i)) [1 ..< length ds])"
  by (simp add: chord_table_def fold_chord_step)

lemma py_round2_bounds: "x - 1 / 200 \<le> py_round2 x" "py_round2 x \<le> x + 1 / 200"
  using round_half_even_bounds [of "x * 100"] by (simp_all add: py_round2_def field_simps)

lemma sin_subadditive:
  assumes "0 \<le> a" "0 \<le> b" "a + b \<le> pi"
  shows "sin (a + b) \<le> sin a + sin b"
proof -
  have "0 \<le> sin a" "0 \<le> sin b" using assms by (simp_all add: sin_ge_zero)
  then have "sin a * cos b \<le> sin a * 1" "cos a * sin b \<le> 1 * sin b"
    by (intro mult_left_mono mult_right_mono; simp)+
  then show ?thesis by (simp add: sin_add)
qed

lemma sum_list_upt_Suc:
  "Suc 0 \<le> k \<Longrightarrow> sum_list (map f [Suc 0 ..< Suc k]) = sum_list (map f [Suc 0 ..< k]) + f k"
  by simp

lemma sin_telescope:
  assumes "sorted ds" "k < length ds" "radians (ds ! k - ds ! 0) \<le> pi"
  shows "sin (radians (ds ! k - ds ! 0))
           \<le> (\<Sum>i\<leftarrow>[Suc 0 ..< Suc k]. sin (radians (ds ! i - ds ! (i - 1))))"
  using assms(2,3)
proof (induction k)
  case 0
  show ?case by (simp add: radians_def)
next
  case (Suc k)
  have le: "ds ! 0 \<le> ds ! k" "ds ! k \<le> ds ! Suc k"
    using assms(1) Suc.prems(1) by (simp_all add: sorted_iff_nth_mono)
  define A where "A = radians (ds ! k - ds ! 0)"
  define a where "a = radians (ds ! Suc k - ds ! k)"
  have A0: "0 \<le> A" and a0: "0 \<le> a" using le by (simp_all add: A_def a_def radians_def)
  have sum: "radians (ds ! Suc k - ds ! 0) = A + a"
    by (simp add: A_def a_def radians_def field_simps)
  with Suc.prems(2) have Aa: "A + a \<le> pi" by simp
  with a0 have "A \<le> pi" by linarith
  with Suc.IH Suc.prems(1) have ih:
    "sin A \<le> (\<Sum>i\<leftarrow>[Suc 0 ..< Suc k]. sin (radians (ds ! i - ds ! (i - 1))))"
    by (simp add: A_def)
  have "sin (A + a) \<le> sin A + sin a" by (rule sin_subadditive [OF A0 a0 Aa])
  also have "\<dots> \<le> (\<Sum>i\<leftarrow>[Suc 0 ..< Suc k]. sin (radians (ds ! i - ds ! (i - 1)))) + sin a"
    using ih by simp
  also have "\<dots> = (\<Sum>i\<leftarrow>[Suc 0 ..< Suc (Suc k)]. sin (radians (ds ! i - ds ! (i - 1))))"
    by (simp add: a_def)
  finally show ?case unfolding sum .
qed

lemma sum_list_round_lower:
  "(\<Sum>i\<leftarrow>ns. f i) - real (length ns) / 200 \<le> (\<Sum>i\<leftarrow>ns. py_round2 (f i))"
proof (induction ns)
  case Nil
  show ?case by simp
next
  case (Cons n ns)
  with py_round2_bounds(1) [of "f n"] show ?case by (simp add: field_simps)
qed

lemma chord_sum_lower:
  assumes "sorted ds" "2 \<le> length ds" "ds ! 0 = 0" "radians (last ds) \<le> pi" "0 \<le> r"
  shows "last (snd (chord_table r ds)) - real (length ds) / 200 \<le> sum_list (fst (chord_table r ds))"
proof -
  define n where "n = length ds"
  define k where "k = n - 1"
  have k: "k < length ds" "Suc k = n" "Suc 0 \<le> k" using assms(2) by (simp_all add: k_def n_def)
  from assms(2) have "ds \<noteq> []" by auto
  then have lastk: "last ds = ds ! k"
    by (simp add: last_conv_nth k_def n_def)
  have up: "[Suc 0 ..< length ds] = [Suc 0 ..< k] @ [k]"
    using k by (metis n_def upt_Suc_append)
  have "snd (chord_table r ds) = 0 # map (\<lambda>i. py_round2 (chord_cum r ds i)) ([Suc 0 ..< k] @ [k])"
    using up by (simp add: chord_table_eq)
  then have "last (snd (chord_table r ds)) = py_round2 (chord_cum r ds k)"
    by simp
  also have "\<dots> \<le> chord_cum r ds k + 1 / 200" by (rule py_round2_bounds)
  finally have edm: "last (snd (chord_table r ds)) \<le> chord_cum r ds k + 1 / 200" .
  have "sin (radians (ds ! k - ds ! 0))
          \<le> (\<Sum>i\<leftarrow>[Suc 0 ..< Suc k]. sin (radians (ds ! i - ds ! (i - 1))))"
    using assms(1) k(1) assms(4) by (intro sin_telescope) (simp_all add: lastk assms(3))
  then have "2 * r * sin (radians (ds ! k))
          \<le> 2 * r * (\<Sum>i\<leftarrow>[Suc 0 ..< Suc k]. sin (radians (ds ! i - ds ! (i - 1))))"
    using assms(5) by (simp add: assms(3) mult_left_mono)
  also have "\<dots> = (\<Sum>i\<leftarrow>[Suc 0 ..< Suc k]. chord_inc r ds i)"
    by (simp add: chord_inc_def sum_list_const_mult)
  finally have cum: "chord_cum r ds k \<le> (\<Sum>i\<leftarrow>[Suc 0 ..< Suc k]. chord_inc r ds i)"
    by (simp add: chord_cum_def)
  have "(\<Sum>i\<leftarrow>[Suc 0 ..< Suc k]. chord_inc r ds i) - real (length [Suc 0 ..< Suc k]) / 200
          \<le> (\<Sum>i\<leftarrow>[Suc 0 ..< Suc k]. py_round2 (chord_inc r ds i))"
    by (rule sum_list_round_lower)
  moreover have "sum_list (fst (chord_table r ds)) = (\<Sum>i\<leftarrow>[Suc 0 ..< Suc k]. py_round2 (chord_inc r ds i))"
    using k(2) by (simp add: chord_table_eq n_def)
  moreover have "real (length [Suc 0 ..< Suc k]) + 1 = real (length ds)"
    using k by (simp add: n_def)
  ultimately show ?thesis using edm cum by (simp add: field_simps)
qed

lemma upt_1_5: "[1 ..< 5] = [1, 2, 3, 4 :: nat]"
  by (simp add: upt_conv_Cons)

lemma sin_ge_linear:
  fixes a :: real
  assumes "0 \<le> a" "a \<le> 36 / 100"
  shows "978 / 1000 * a \<le> sin a"
proof -
  have a2: "a ^ 2 \<le> (36 / 100) ^ 2" using assms by (intro power_mono)
  then have "a ^ 2 * a ^ 2 \<le> (36 / 100) ^ 2 * (36 / 100) ^ 2"
    by (intro mult_mono) simp_all
  then have a4: "a ^ 4 \<le> (36 / 100) ^ 4" by (simp add: power_add [symmetric])
  have "a ^ 3 = a * a ^ 2" "a ^ 5 = a * a ^ 4" by (simp_all add: power_numeral_reduce)
  moreover have "a * a ^ 2 \<le> a * (36 / 100) ^ 2" "a * a ^ 4 \<le> a * (36 / 100) ^ 4"
    using a2 a4 assms(1) by (intro mult_left_mono; simp)+
  ultimately have "a ^ 3 / 6 + a ^ 5 / 120 \<le> a * ((36 / 100) ^ 2 / 6 + (36 / 100) ^ 4 / 120)"
    by (simp add: field_simps)
  also have "\<dots> \<le> a * (22 / 1000)"
    using assms(1) by (intro mult_left_mono) (simp_all add: power_divide)
  finally have "a ^ 3 / 6 + a ^ 5 / 120 \<le> a * (22 / 1000)" .
  with sin_lower [OF assms(1)] show ?thesis by (simp add: field_simps)
qed

lemma sqrt2_lt: "sqrt 2 < 1415 / 1000"
proof -
  have "sqrt 2 < sqrt ((1415 / 1000)^2)" by (subst real_sqrt_less_iff) (simp add: power2_eq_square)
  then show ?thesis by simp
qed

lemma q_bounds: "62 < 200 / pi" "200 / pi < 65"
  using pi_gt_312 pi_lt_318 by (simp_all add: field_simps)

lemma deflections_run:
  fixes I_deg Da_deg PI_ft :: real
  assumes "0 < I_deg" and "0 < Da_deg" and "0 < stake_step"
  defines "pc \<equiv> PC_station (curve_elements I_deg Da_deg PI_ft)"
    and "pt \<equiv> PT_station (curve_elements I_deg Da_deg PI_ft)"
  shows "\<exists>sts. stake_stations pc pt stake_step = Some (Inr sts)
           \<and> 2 \<le> length sts \<and> hd sts = pc
           \<and> sorted (deflections Da_deg pc sts)
           \<and> deflections Da_deg pc sts ! 0 = 0
           \<and> last (deflections Da_deg pc sts) = I_deg / 2"
proof -
  have diff: "pt - pc = 100 * I_deg / Da_deg"
    unfolding pc_def pt_def by (rule PT_minus_PC)
  with assms(1,2) have le: "pc \<le> pt"
    by (smt (verit) divide_nonneg_pos mult_nonneg_nonneg)
  from stake_stations_run [OF assms(3), of pc pt] obtain n where n:
    "stake_stations pc pt stake_step
       = Some (Inr (pc # map (\<lambda>k. real_of_int (first_full pc stake_step + int k * stake_step)) [0 ..< n] @ [pt]))"
    "\<forall>k<n. real_of_int (first_full pc stake_step + int k * stake_step) < pt - 1 / 1000000"
    by blast
  define sts where
    "sts = pc # map (\<lambda>k. real_of_int (first_full pc stake_step + int k * stake_step)) [0 ..< n] @ [pt]"
  have "sorted sts"
    unfolding sts_def by (rule sorted_stations [OF assms(3) le n(2)])
  then have s: "sorted (deflections Da_deg pc sts)"
    by (rule sorted_deflections [OF assms(2)])
  have "last (deflections Da_deg pc sts) = Da_deg * (pt - pc) / 200"
    by (simp add: deflections_def sts_def)
  also have "\<dots> = I_deg / 2"
    using assms(2) by (simp add: diff)
  finally have l: "last (deflections Da_deg pc sts) = I_deg / 2" .
  have "stake_stations pc pt stake_step = Some (Inr sts)"
    using n(1) by (simp add: sts_def)
  moreover have "2 \<le> length sts" "hd sts = pc" "deflections Da_deg pc sts ! 0 = 0"
    by (simp_all add: sts_def deflections_def)
  ultimately show ?thesis using s l by blast
qed

text \<open>
  C4 (as amended). For \<open>0 < I_deg \<le> 180\<close> and \<open>Da_deg > 0\<close> the two chord columns start
  with \<open>0\<close>; in row \<open>i\<close> the incremental chord is \<open>2 * R * sin\<close> of the difference of the
  deflections of rows \<open>i\<close> and \<open>i - 1\<close> and the cumulative chord is \<open>2 * R * sin\<close> of the
  deflection of row \<open>i\<close> (the angles in radians), both rounded to two decimals. The
  incremental chords do not add up to the last cumulative chord: their sum is at least
  the last cumulative chord, less the rounding of \<open>0.005\<close> per stake.
\<close>

theorem chord_sum_bound:
  assumes "0 < I_deg" and "I_deg \<le> 180" and "0 < Da_deg" and "0 < stake_step"
  shows "(let el = curve_elements I_deg Da_deg PI_ft; pc = PC_station el; pt = PT_station el
          in \<exists>sts. stake_stations pc pt stake_step = Some (Inr sts)
               \<and> (let ds = deflections Da_deg pc sts; ct = chord_table (R el) ds
                   in fst ct = 0 # map (\<lambda>i. py_round2 (2 * R el * sin (radians (ds ! i - ds ! (i - 1)))))
                                       [1 ..< length sts]
                    \<and> snd ct = 0 # map (\<lambda>i. py_round2 (2 * R el * sin (radians (ds ! i))))
                                       [1 ..< length sts]
                    \<and> last (snd ct) - real (length sts) / 200 \<le> sum_list (fst ct)))"
proof -
  define el where "el = curve_elements I_deg Da_deg PI_ft"
  from deflections_run [OF assms(1,3,4), of PI_ft] obtain sts where sts:
    "stake_stations (PC_station el) (PT_station el) stake_step = Some (Inr sts)"
    "2 \<le> length sts"
    "sorted (deflections Da_deg (PC_station el) sts)"
    "deflections Da_deg (PC_station el) sts ! 0 = 0"
    "last (deflections Da_deg (PC_station el) sts) = I_deg / 2"
    unfolding el_def by blast
  define ds where "ds = deflections Da_deg (PC_station el) sts"
  have len: "length ds = length sts" by (simp add: ds_def deflections_def)
  have r: "0 \<le> R el" using assms(3) by (simp add: el_def curve_elements_def Let_def)
  have "radians (last ds) \<le> pi"
    using assms(2) by (simp add: ds_def sts(5) radians_def)
  from chord_sum_lower [OF sts(3) [folded ds_def] _ sts(4) [folded ds_def] this r] sts(2) len
  have "last (snd (chord_table (R el) ds)) - real (length sts) / 200
          \<le> sum_list (fst (chord_table (R el) ds))"
    by simp
  moreover have "fst (chord_table (R el) ds)
      = 0 # map (\<lambda>i. py_round2 (2 * R el * sin (radians (ds ! i - ds ! (i - 1))))) [1 ..< length sts]"
    "snd (chord_table (R el) ds)
      = 0 # map (\<lambda>i. py_round2 (2 * R el * sin (radians (ds ! i)))) [1 ..< length sts]"
    by (simp_all add: chord_table_eq chord_inc_def chord_cum_def len)
  ultimately have "stake_stations (PC_station el) (PT_station el) stake_step = Some (Inr sts)
      \<and> fst (chord_table (R el) ds)
          = 0 # map (\<lambda>i. py_round2 (2 * R el * sin (radians (ds ! i - ds ! (i - 1))))) [1 ..< length sts]
      \<and> snd (chord_table (R el) ds)
          = 0 # map (\<lambda>i. py_round2 (2 * R el * sin (radians (ds ! i)))) [1 ..< length sts]
      \<and> last (snd (chord_table (R el) ds)) - real (length sts) / 200
          \<le> sum_list (fst (chord_table (R el) ds))"
    using sts(1) by blast
  then show ?thesis
    unfolding Let_def ds_def el_def by (rule exI [of _ sts])
qed

theorem chord_sum_bound_witness:
  "(0::real) < 40 \<and> (40::real) \<le> 180 \<and> (0::real) < 8 \<and> (0::int) < 50 \<and>
   (let el = curve_elements 40 8 1000; pc = PC_station el; pt = PT_station el
    in \<exists>sts. stake_stations pc pt 50 = Some (Inr sts)
         \<and> (let ds = deflections 8 pc sts; ct = chord_table (R el) ds
             in fst ct = 0 # map (\<lambda>i. py_round2 (2 * R el * sin (radians (ds ! i - ds ! (i - 1)))))
                                 [1 ..< length sts]
              \<and> snd ct = 0 # map (\<lambda>i. py_round2 (2 * R el * sin (radians (ds ! i))))
                                 [1 ..< length sts]
              \<and> last (snd ct) - real (length sts) / 200 \<le> sum_list (fst ct)))"
proof -
  have a: "(0::real) < 40" and b: "(40::real) \<le> 180" and c: "(0::real) < 8"
    and e: "(0::int) < 50" by simp_all
  from chord_sum_bound [OF a b c e, of 1000] show ?thesis
    using a b c e by blast
qed

text \<open>
  The sum is not the last cumulative chord: for \<open>I_deg = 90\<close>, \<open>Da_deg = 90\<close>, the P.I.
  station \<open>1+70.00\<close> and an interval of \<open>25\<close> the stations are \<open>PC\<close>, \<open>150\<close>, \<open>175\<close>,
  \<open>200\<close> and \<open>PT\<close>, and the incremental chords add up to more than five feet over the
  long chord from \<open>PC\<close> to \<open>PT\<close>.
\<close>

lemma radians_small:
  assumes "0 \<le> x" "x \<le> 2025 / 100"
  shows "0 \<le> radians x" "radians x \<le> 36 / 100"
proof -
  show "0 \<le> radians x" using assms(1) by (simp add: radians_def)
  have "x * pi \<le> 2025 / 100 * pi" using assms(2) by (intro mult_right_mono) simp_all
  also have "\<dots> \<le> 2025 / 100 * (318 / 100)" using pi_lt_318 by simp
  finally have "x * pi \<le> 2025 / 100 * (318 / 100)" .
  then show "radians x \<le> 36 / 100" unfolding radians_def by linarith
qed

lemma chord_ge_linear:
  assumes "0 \<le> x" "x \<le> 2025 / 100" "0 \<le> r"
  shows "2 * r * (978 / 1000 * radians x) - 1 / 200 \<le> py_round2 (2 * r * sin (radians x))"
proof -
  have "978 / 1000 * radians x \<le> sin (radians x)"
    using radians_small [OF assms(1,2)] by (intro sin_ge_linear)
  then have "2 * r * (978 / 1000 * radians x) \<le> 2 * r * sin (radians x)"
    using assms(3) by (intro mult_left_mono) simp_all
  with py_round2_bounds(1) [of "2 * r * sin (radians x)"] show ?thesis by linarith
qed

lemma example_elements:
  "R (curve_elements 90 90 170) = 200 / pi"
  "PC_station (curve_elements 90 90 170) = 170 - 200 / pi"
  "PT_station (curve_elements 90 90 170) = 270 - 200 / pi"
proof -
  have r: "radians (90 / 2) = pi / 4" by (simp add: radians_def)
  have "cos (pi / 4) \<noteq> 0" by (simp add: cos_45)
  then have t: "math_tan (radians (90 / 2)) = 1"
    unfolding r by (simp add: math_tan_nonpole tan_45)
  have r: "R (curve_elements 90 90 170) = 18000 / (pi * 90)"
    and pc: "PC_station (curve_elements 90 90 170) = 170 - 18000 / (pi * 90) * math_tan (radians (90 / 2))"
    and pt: "PT_station (curve_elements 90 90 170)
               = 170 - 18000 / (pi * 90) * math_tan (radians (90 / 2)) + 100 * 90 / 90"
    by (simp_all only: curve_elements_def Let_def elements.simps)
  show "R (curve_elements 90 90 170) = 200 / pi" unfolding r by simp
  show "PC_station (curve_elements 90 90 170) = 170 - 200 / pi" unfolding pc t by simp
  show "PT_station (curve_elements 90 90 170) = 270 - 200 / pi" unfolding pt t by simp
qed

lemma example_stations:
  "stake_stations (170 - 200 / pi) (270 - 200 / pi) 25
     = Some (Inr [170 - 200 / pi, 150, 175, 200, 270 - 200 / pi])"
proof -
  define q :: real where "q = 200 / pi"
  have q: "62 < q" "q < 65" unfolding q_def by (rule q_bounds)+
  have "\<lceil>(170 - q + real_of_int 25) / real_of_int 25\<rceil> = 6"
    using q by (intro ceiling_unique) simp_all
  then have ff: "first_full (170 - q) 25 = 150" by (simp add: first_full_def)
  have c: "real_of_int 150 < 270 - q - 1 / 1000000" "real_of_int 175 < 270 - q - 1 / 1000000"
    "real_of_int 200 < 270 - q - 1 / 1000000" "\<not> real_of_int 225 < 270 - q - 1 / 1000000"
    using q by simp_all
  have "stake_loop 225 (270 - q) 25 [170 - q, 150, 175, 200] = Some [170 - q, 150, 175, 200]"
    using c(4) by (subst stake_loop.simps) simp
  then have "stake_loop 200 (270 - q) 25 [170 - q, 150, 175] = Some [170 - q, 150, 175, 200]"
    using c(3) by (subst stake_loop.simps) simp
  then have "stake_loop 175 (270 - q) 25 [170 - q, 150] = Some [170 - q, 150, 175, 200]"
    using c(2) by (subst stake_loop.simps) simp
  then have "stake_loop 150 (270 - q) 25 [170 - q] = Some [170 - q, 150, 175, 200]"
    using c(1) by (subst stake_loop.simps) simp
  then have "stake_stations (170 - q) (270 - q) 25 = Some (Inr [170 - q, 150, 175, 200, 270 - q])"
    by (simp add: stake_stations_def ff)
  then show ?thesis unfolding q_def .
qed

lemma example_chords:
  defines "ds \<equiv> deflections 90 (170 - 200 / pi) [170 - 200 / pi, 150, 175, 200, 270 - 200 / pi]"
  shows "5 < sum_list (fst (chord_table (200 / pi) ds)) - last (snd (chord_table (200 / pi) ds))"
proof -
  define q :: real where "q = 200 / pi"
  have q: "62 < q" "q < 65" unfolding q_def by (rule q_bounds)+
  have q0: "0 \<le> q" using q by simp
  define x1 where "x1 = 90 * (q - 20) / 200"
  define x2 :: real where "x2 = 1125 / 100"
  define x4 where "x4 = 45 - 90 * (q + 30) / 200"
  have ds: "ds = [0, x1, x1 + x2, x1 + x2 + x2, 45]"
    by (simp add: ds_def deflections_def q_def x1_def x2_def field_simps)
  have x4: "45 - (x1 + x2 + x2) = x4" "45 - (2 * x2 + x1) = x4"
    by (simp_all add: x1_def x2_def x4_def field_simps)
  have len: "length ds = 5" by (simp add: ds)
  have tape: "fst (chord_table q ds)
      = [0, py_round2 (2 * q * sin (radians x1)), py_round2 (2 * q * sin (radians x2)),
            py_round2 (2 * q * sin (radians x2)), py_round2 (2 * q * sin (radians x4))]"
    unfolding chord_table_eq len upt_1_5 by (simp add: chord_inc_def ds x4)
  have edm: "last (snd (chord_table q ds)) = py_round2 (2 * q * sin (radians 45))"
    unfolding chord_table_eq len upt_1_5 by (simp add: chord_cum_def ds)
  have b1: "0 \<le> x1" "x1 \<le> 2025 / 100" using q by (simp_all add: x1_def)
  have b2: "0 \<le> x2" "x2 \<le> 2025 / 100" by (simp_all add: x2_def)
  have b4: "0 \<le> x4" "x4 \<le> 2025 / 100" using q by (simp_all add: x4_def)
  note lo = chord_ge_linear [OF b1 q0] chord_ge_linear [OF b2 q0] chord_ge_linear [OF b4 q0]
  have sum45: "x1 + x2 + x2 + x4 = 45" using x4(1) by linarith
  have "radians x1 + radians x2 + radians x2 + radians x4 = radians (x1 + x2 + x2 + x4)"
    by (simp add: radians_def algebra_simps add_divide_distrib)
  also have "\<dots> = pi / 4" unfolding sum45 by (simp add: radians_def)
  finally have tot: "radians x1 + radians x2 + radians x2 + radians x4 = pi / 4" .
  have "2 * q * (978 / 1000 * (pi / 4)) = 978 / 10"
    by (simp add: q_def)
  then have "2 * q * (978 / 1000 * radians x1) + 2 * q * (978 / 1000 * radians x2)
        + 2 * q * (978 / 1000 * radians x2) + 2 * q * (978 / 1000 * radians x4) = 978 / 10"
    unfolding tot [symmetric] by (simp add: algebra_simps)
  with lo have low: "978 / 10 - 4 / 200 \<le> sum_list (fst (chord_table q ds))"
    unfolding tape by simp
  have "radians 45 = pi / 4" by (simp add: radians_def)
  then have "sin (radians 45) = sqrt 2 / 2" by (simp only: sin_45)
  then have "2 * q * sin (radians 45) = q * sqrt 2" by simp
  moreover have "q * sqrt 2 \<le> 65 * (1415 / 1000)"
    using q sqrt2_lt by (intro mult_mono) simp_all
  ultimately have "last (snd (chord_table q ds)) \<le> 65 * (1415 / 1000) + 1 / 200"
    unfolding edm using py_round2_bounds(2) [of "2 * q * sin (radians 45)"] by linarith
  with low show ?thesis unfolding q_def by simp
qed

theorem chord_sum_counterexample:
  "station_to_ft ''1+70.00'' = Inr (Finite 170)
   \<and> stake_stations (PC_station (curve_elements 90 90 170)) (PT_station (curve_elements 90 90 170)) 25
       = Some (Inr [170 - 200 / pi, 150, 175, 200, 270 - 200 / pi])
   \<and> 5 < sum_list (fst (chord_table (R (curve_elements 90 90 170))
                (deflections 90 (PC_station (curve_elements 90 90 170))
                   [170 - 200 / pi, 150, 175, 200, 270 - 200 / pi])))
         - last (snd (chord_table (R (curve_elements 90 90 170))
                (deflections 90 (PC_station (curve_elements 90 90 170))
                   [170 - 200 / pi, 150, 175, 200, 270 - 200 / pi])))"
proof -
  have "binary64 170 = 170" using binary64_int [of 170] by simp
  then have "station_to_ft ''1+70.00'' = Inr (Finite 170)"
    by (simp add: parse_defs)
  with example_stations example_chords show ?thesis
    unfolding example_elements by simp
qed

end
